theory Spec2Isabelle
  imports Complex_Main "HOL-Library.AList"
begin

section \<open>Data model of App.tsx\<close>

text \<open>
  Coordinates are idealised as mathematical reals and levels and indices are naturals; JSON
  payloads are kept as an ordinary tree datatype.  The objects the layout uses as dictionaries
  (\<open>nodeMap\<close>, \<open>childrenByParent\<close>, \<open>grouped\<close>) are association lists with distinct keys,
  written with \<^const>\<open>AList.update\<close> (a property assignment keeps the place of an existing key
  and appends a new one); \<open>levels\<close> is a map and \<open>childSet\<close> a set.  They are object literals,
  so a read also finds the members inherited from \<^verbatim>\<open>Object.prototype\<close>; the reads and writes
  of the source are modelled with that in the next section.
\<close>

datatype json =
    JNull
  | JBool bool
  | JNum real
  | JStr string
  | JArr "json list"
  | JObj "(string \<times> json) list"

record Position =
  pos_x :: real
  pos_y :: real

record WbsNode =
  node_id :: string
  position :: Position
  node_data :: "(string \<times> json) list"
  node_type :: string

record WbsEdge =
  edge_id :: string
  source :: string
  target :: string
  edge_type :: string
  label :: string
  edge_data :: "(string \<times> json) list"

datatype ViewMode = GLOBAL | LOCAL

datatype MenuType = canvas | node

record ContextMenuState =
  visible :: bool
  menu_x :: real
  menu_y :: real
  menu_type :: MenuType
  nodeId :: "string option"

section \<open>Object literals used as dictionaries\<close>

text \<open>
  \<open>nodeMap\<close>, \<open>childrenByParent\<close>, \<open>levels\<close> and \<open>grouped\<close> are object literals, so a read
  \<^verbatim>\<open>obj[k]\<close> of a key that is not an own property falls through to \<^verbatim>\<open>Object.prototype\<close>:
  for the twelve names below it yields the inherited member (a function, or for
  \<^verbatim>\<open>__proto__\<close> the prototype object), never \<^verbatim>\<open>undefined\<close>.  An assignment to
  \<^verbatim>\<open>obj["__proto__"]\<close> runs the inherited setter and creates no own property.
\<close>

datatype error = TypeError

definition objectPrototypeNames :: "string list" where
  "objectPrototypeNames =
     [''constructor'', ''__defineGetter__'', ''__defineSetter__'', ''hasOwnProperty'',
      ''__lookupGetter__'', ''__lookupSetter__'', ''isPrototypeOf'', ''propertyIsEnumerable'',
      ''toString'', ''valueOf'', ''__proto__'', ''toLocaleString'']"

definition inheritedName :: "string \<Rightarrow> bool" where
  "inheritedName k = (k \<in> set objectPrototypeNames)"

datatype 'a property = Own 'a | Inherited | Undefined

text \<open>\<^verbatim>\<open>obj[k]\<close>, for an object kept as an association list and for one kept as a map.\<close>

definition getProp :: "(string \<times> 'a) list \<Rightarrow> string \<Rightarrow> 'a property" where
  "getProp obj k =
     (case map_of obj k of
        Some v \<Rightarrow> Own v
      | None \<Rightarrow> if inheritedName k then Inherited else Undefined)"

definition getEntry :: "(string \<rightharpoonup> 'a) \<Rightarrow> string \<Rightarrow> 'a property" where
  "getEntry m k =
     (case m k of
        Some v \<Rightarrow> Own v
      | None \<Rightarrow> if inheritedName k then Inherited else Undefined)"

text \<open>\<^verbatim>\<open>obj[k] = v\<close>\<close>

definition setProp :: "string \<Rightarrow> 'a \<Rightarrow> (string \<times> 'a) list \<Rightarrow> (string \<times> 'a) list" where
  "setProp k v obj = (if k = ''__proto__'' then obj else AList.update k v obj)"

definition setEntry :: "string \<Rightarrow> 'a \<Rightarrow> (string \<rightharpoonup> 'a) \<Rightarrow> (string \<rightharpoonup> 'a)" where
  "setEntry k v m = (if k = ''__proto__'' then m else m(k \<mapsto> v))"

lemma inheritedName_proto [simp]: "inheritedName ''__proto__''"
  by (simp add: inheritedName_def objectPrototypeNames_def)

lemma getProp_plain: "\<not> inheritedName k \<Longrightarrow> getProp obj k = (case map_of obj k of Some v \<Rightarrow> Own v | None \<Rightarrow> Undefined)"
  by (simp add: getProp_def split: option.splits)

lemma getEntry_Own [simp]: "getEntry m k = Own v \<longleftrightarrow> m k = Some v"
  by (simp add: getEntry_def split: option.splits)

lemma getEntry_Undefined: "getEntry m k = Undefined \<longleftrightarrow> m k = None \<and> \<not> inheritedName k"
  by (simp add: getEntry_def split: option.splits)

lemma setProp_plain: "\<not> inheritedName k \<Longrightarrow> setProp k v obj = AList.update k v obj"
  by (auto simp: setProp_def)

lemma setEntry_plain: "\<not> inheritedName k \<Longrightarrow> setEntry k v m = m(k \<mapsto> v)"
  by (auto simp: setEntry_def)

section \<open>Graph loader\<close>

record RawNode =
  rn_id :: string
  rn_type :: string
  rn_wbs_code :: "string option"
  rn_data :: "(string \<times> json) list option"

record RawEdge =
  re_id :: string
  re_type :: string
  re_source :: string
  re_target :: string
  re_data :: "(string \<times> json) list option"

text \<open>\<^verbatim>\<open>d?.k\<close> on an optional payload object.\<close>

definition dataField :: "(string \<times> json) list option \<Rightarrow> string \<Rightarrow> json option" where
  "dataField d k = (case d of None \<Rightarrow> None | Some kv \<Rightarrow> map_of kv k)"

text \<open>\<^verbatim>\<open>a ?? b\<close>: the right operand replaces \<^verbatim>\<open>undefined\<close> and \<^verbatim>\<open>null\<close> only.\<close>

fun nullish_or :: "json option \<Rightarrow> json \<Rightarrow> json" where
  "nullish_or None b = b"
| "nullish_or (Some JNull) b = b"
| "nullish_or (Some v) b = v"

text \<open>Object spread \<^verbatim>\<open>{...base, ...d}\<close>: the entries of \<open>d\<close> are assigned in order.\<close>

definition spread :: "(string \<times> json) list \<Rightarrow> (string \<times> json) list \<Rightarrow> (string \<times> json) list" where
  "spread base d = fold (\<lambda>(k, v). AList.update k v) d base"

definition nodeLabel :: "RawNode \<Rightarrow> json" where
  "nodeLabel n =
     nullish_or (dataField (rn_data n) ''title'')
       (nullish_or (dataField (rn_data n) ''name'')
          (JStr (rn_type n @ '' '' @ (case rn_wbs_code n of None \<Rightarrow> [] | Some w \<Rightarrow> w))))"

definition mkNode :: "RawNode \<Rightarrow> WbsNode" where
  "mkNode n =
     \<lparr> node_id = rn_id n,
       position = \<lparr> pos_x = 0, pos_y = 0 \<rparr>,
       node_data = spread [(''label'', nodeLabel n)]
                     (case rn_data n of None \<Rightarrow> [] | Some d \<Rightarrow> d),
       node_type = ''default'' \<rparr>"

text \<open>
  \<^verbatim>\<open>nodeMap[n.id] = {...}\<close> for each raw node: a node whose id is \<^verbatim>\<open>__proto__\<close> becomes
  the prototype of \<open>nodeMap\<close> and not one of its keys.
\<close>

definition buildNodeMap :: "RawNode list \<Rightarrow> (string \<times> WbsNode) list" where
  "buildNodeMap rawNodes = fold (\<lambda>n m. setProp (rn_id n) (mkNode n) m) rawNodes []"

definition mkEdge :: "RawEdge \<Rightarrow> WbsEdge" where
  "mkEdge e =
     \<lparr> edge_id = re_id e, source = re_source e, target = re_target e,
       edge_type = ''default'', label = re_type e,
       edge_data = spread [(''wbsType'', JStr (re_type e))]
                     (case re_data e of None \<Rightarrow> [] | Some d \<Rightarrow> d) \<rparr>"

text \<open>
  The state of the loop over the raw edges.  \<open>acc_thrown\<close> holds the exception that ended
  the loop, if one was thrown: from then on no further edge is read.
\<close>

record EdgeAcc =
  acc_hierarchy :: "WbsEdge list"
  acc_dependency :: "WbsEdge list"
  childrenByParent :: "(string \<times> string list) list"
  childSet :: "string set"
  acc_thrown :: "error option"

text \<open>
  One round of the loop.  For a hierarchy edge the edge is pushed first; then
  \<^verbatim>\<open>childrenByParent[e.source]\<close> is read: \<^verbatim>\<open>undefined\<close> is replaced by a new array, an own
  array is kept, and an inherited member is truthy, is kept as well, and has no
  \<^verbatim>\<open>push\<close>, which throws.
\<close>

definition addRawEdge :: "RawEdge \<Rightarrow> EdgeAcc \<Rightarrow> EdgeAcc" where
  "addRawEdge e acc =
     (if acc_thrown acc \<noteq> None then acc
      else if re_type e = ''HIERARCHY''
      then (case getProp (childrenByParent acc) (re_source e) of
              Inherited \<Rightarrow>
                acc\<lparr> acc_hierarchy := acc_hierarchy acc @ [mkEdge e],
                     acc_thrown := Some TypeError \<rparr>
            | Undefined \<Rightarrow>
                acc\<lparr> acc_hierarchy := acc_hierarchy acc @ [mkEdge e],
                     childrenByParent :=
                       AList.update (re_source e) ([] @ [re_target e]) (childrenByParent acc),
                     childSet := insert (re_target e) (childSet acc) \<rparr>
            | Own cs \<Rightarrow>
                acc\<lparr> acc_hierarchy := acc_hierarchy acc @ [mkEdge e],
                     childrenByParent :=
                       AList.update (re_source e) (cs @ [re_target e]) (childrenByParent acc),
                     childSet := insert (re_target e) (childSet acc) \<rparr>)
      else acc\<lparr> acc_dependency := acc_dependency acc @ [mkEdge e] \<rparr>)"

definition loadEdges :: "RawEdge list \<Rightarrow> EdgeAcc" where
  "loadEdges rawEdges =
     fold addRawEdge rawEdges
       \<lparr> acc_hierarchy = [], acc_dependency = [], childrenByParent = [], childSet = {},
         acc_thrown = None \<rparr>"

text \<open>Hierarchy edges none of whose sources names an inherited member: the loop runs through.\<close>

definition plainSources :: "RawEdge list \<Rightarrow> bool" where
  "plainSources es = (\<forall>e\<in>set es. re_type e = ''HIERARCHY'' \<longrightarrow> \<not> inheritedName (re_source e))"

lemma fold_addRawEdge_labels:
  "(\<forall>e\<in>set (acc_hierarchy acc). label e = ''HIERARCHY'')
   \<Longrightarrow> \<forall>e\<in>set (acc_hierarchy (fold addRawEdge es acc)). label e = ''HIERARCHY''"
proof (induction es arbitrary: acc)
  case Nil
  then show ?case by simp
next
  case (Cons e es)
  have "\<forall>x\<in>set (acc_hierarchy (addRawEdge e acc)). label x = ''HIERARCHY''"
    using Cons.prems by (auto simp: addRawEdge_def mkEdge_def split: property.splits)
  then show ?case using Cons.IH by simp
qed

lemma hierarchy_labels: "\<forall>e\<in>set (acc_hierarchy (loadEdges es)). label e = ''HIERARCHY''"
  unfolding loadEdges_def by (rule fold_addRawEdge_labels) simp

text \<open>The own children of \<open>p\<close>: the array \<open>childrenByParent\<close> holds for \<open>p\<close>, if any.\<close>

definition ownChildren :: "(string \<times> string list) list \<Rightarrow> string \<Rightarrow> string list" where
  "ownChildren cbp p = (case map_of cbp p of None \<Rightarrow> [] | Some cs \<Rightarrow> cs)"

lemma ownChildren_update:
  "ownChildren (AList.update k v al) p = (if p = k then v else ownChildren al p)"
  by (simp add: ownChildren_def update_conv')

lemma addRawEdge_plain:
  assumes "acc_thrown acc = None" and "re_type e = ''HIERARCHY''" and "\<not> inheritedName (re_source e)"
  shows "addRawEdge e acc =
           acc\<lparr> acc_hierarchy := acc_hierarchy acc @ [mkEdge e],
                childrenByParent :=
                  AList.update (re_source e)
                    (ownChildren (childrenByParent acc) (re_source e) @ [re_target e])
                    (childrenByParent acc),
                childSet := insert (re_target e) (childSet acc) \<rparr>"
  using assms
  by (simp add: addRawEdge_def getProp_plain ownChildren_def split: option.splits)

lemma addRawEdge_other:
  assumes "acc_thrown acc = None" and "re_type e \<noteq> ''HIERARCHY''"
  shows "addRawEdge e acc = acc\<lparr> acc_dependency := acc_dependency acc @ [mkEdge e] \<rparr>"
  using assms by (simp add: addRawEdge_def)

lemma fold_addRawEdge_plain:
  assumes "plainSources es" and "acc_thrown acc = None"
  shows "acc_thrown (fold addRawEdge es acc) = None
       \<and> acc_hierarchy (fold addRawEdge es acc)
           = acc_hierarchy acc @ map mkEdge (filter (\<lambda>e. re_type e = ''HIERARCHY'') es)
       \<and> acc_dependency (fold addRawEdge es acc)
           = acc_dependency acc @ map mkEdge (filter (\<lambda>e. re_type e \<noteq> ''HIERARCHY'') es)
       \<and> childSet (fold addRawEdge es acc)
           = childSet acc \<union> re_target ` {e \<in> set es. re_type e = ''HIERARCHY''}
       \<and> (\<forall>p. ownChildren (childrenByParent (fold addRawEdge es acc)) p
              = ownChildren (childrenByParent acc) p
                @ map re_target (filter (\<lambda>e. re_type e = ''HIERARCHY'' \<and> re_source e = p) es))"
  using assms
proof (induction es arbitrary: acc)
  case Nil
  then show ?case by simp
next
  case (Cons e es)
  from Cons.prems(1) have ps: "plainSources es" by (simp add: plainSources_def)
  show ?case
  proof (cases "re_type e = ''HIERARCHY''")
    case True
    with Cons.prems(1) have pl: "\<not> inheritedName (re_source e)" by (simp add: plainSources_def)
    note step = addRawEdge_plain [OF Cons.prems(2) True pl]
    have t: "acc_thrown (addRawEdge e acc) = None" using Cons.prems(2) by (simp add: step)
    from Cons.IH [OF ps t] True show ?thesis
      by (simp add: step ownChildren_update) auto
  next
    case False
    note step = addRawEdge_other [OF Cons.prems(2) False]
    have t: "acc_thrown (addRawEdge e acc) = None" using Cons.prems(2) by (simp add: step)
    from Cons.IH [OF ps t] False show ?thesis
      by (simp add: step) auto
  qed
qed

lemma loadEdges_plain:
  assumes "plainSources es"
  shows "acc_thrown (loadEdges es) = None"
    and "acc_hierarchy (loadEdges es) = map mkEdge (filter (\<lambda>e. re_type e = ''HIERARCHY'') es)"
    and "acc_dependency (loadEdges es) = map mkEdge (filter (\<lambda>e. re_type e \<noteq> ''HIERARCHY'') es)"
    and "childSet (loadEdges es) = re_target ` {e \<in> set es. re_type e = ''HIERARCHY''}"
    and "ownChildren (childrenByParent (loadEdges es)) p
           = map re_target (filter (\<lambda>e. re_type e = ''HIERARCHY'' \<and> re_source e = p) es)"
  using fold_addRawEdge_plain [OF assms, of "\<lparr> acc_hierarchy = [], acc_dependency = [],
           childrenByParent = [], childSet = {}, acc_thrown = None \<rparr>"]
  by (simp_all add: loadEdges_def ownChildren_def)

section \<open>Hierarchy layout engine: levels\<close>

type_synonym levels = "string \<rightharpoonup> nat"

text \<open>
  \<^verbatim>\<open>childrenByParent[parentId] || []\<close>, as the \<^verbatim>\<open>forEach\<close> that follows sees it: an own array,
  the empty array for \<^verbatim>\<open>undefined\<close>, and for an inherited member (truthy, and without a
  \<^verbatim>\<open>forEach\<close>) the exception of the call.
\<close>

definition childrenOf :: "(string \<times> string list) list \<Rightarrow> string \<Rightarrow> error + string list" where
  "childrenOf cbp p =
     (case getProp cbp p of
        Own cs \<Rightarrow> Inr cs
      | Undefined \<Rightarrow> Inr []
      | Inherited \<Rightarrow> Inl TypeError)"

text \<open>
  The inner \<^verbatim>\<open>children.forEach\<close>: a child for which \<^verbatim>\<open>levels[childId] === undefined\<close> gets
  \<open>level + 1\<close> and is queued.  A child named like an inherited member reads as that member
  and is passed over.
\<close>

fun visitChildren :: "nat \<Rightarrow> string list \<Rightarrow> levels \<times> string list \<Rightarrow> levels \<times> string list" where
  "visitChildren level [] (lv, queue) = (lv, queue)"
| "visitChildren level (childId # cs) (lv, queue) =
     (if getEntry lv childId = Undefined
      then visitChildren level cs (setEntry childId (level + 1) lv, queue @ [childId])
      else visitChildren level cs (lv, queue))"

definition allChildren :: "(string \<times> string list) list \<Rightarrow> string set" where
  "allChildren cbp = (\<Union>cs \<in> snd ` set cbp. set cs)"

lemma finite_allChildren [simp]: "finite (allChildren cbp)"
  by (simp add: allChildren_def)

lemma ownChildren_subset: "set (ownChildren cbp p) \<subseteq> allChildren cbp"
proof (cases "map_of cbp p")
  case None
  then show ?thesis by (simp add: ownChildren_def)
next
  case (Some cs)
  then have "(p, cs) \<in> set cbp" by (rule map_of_SomeD)
  then have "set cs \<subseteq> allChildren cbp" by (force simp: allChildren_def)
  with Some show ?thesis by (simp add: ownChildren_def)
qed

lemma childrenOf_Inr: "childrenOf cbp p = Inr cs \<Longrightarrow> cs = ownChildren cbp p"
  by (auto simp: childrenOf_def getProp_def ownChildren_def split: option.splits if_splits)

lemma childrenOf_plain: "\<not> inheritedName p \<Longrightarrow> childrenOf cbp p = Inr (ownChildren cbp p)"
  by (simp add: childrenOf_def getProp_plain ownChildren_def split: option.splits)

lemma childrenOf_subset: "childrenOf cbp p = Inr cs \<Longrightarrow> set cs \<subseteq> allChildren cbp"
  using childrenOf_Inr [of cbp p cs] ownChildren_subset [of cbp p] by simp

lemma visitChildren_measure:
  assumes "visitChildren level cs (lv, q) = (lv', q')" and "set cs \<subseteq> U" and "finite U"
  shows "card (U - dom lv') + length q' = card (U - dom lv) + length q"
  using assms
proof (induction cs arbitrary: lv q)
  case Nil
  then show ?case by simp
next
  case (Cons c cs)
  show ?case
  proof (cases "getEntry lv c = Undefined")
    case True
    then have none: "lv c = None" and pl: "\<not> inheritedName c" by (simp_all add: getEntry_Undefined)
    with Cons.prems have c: "c \<in> U - dom lv" by auto
    have set: "setEntry c (Suc level) lv = lv(c \<mapsto> Suc level)" using pl by (rule setEntry_plain)
    have eq: "U - dom (lv(c \<mapsto> level + 1)) = (U - dom lv) - {c}" by auto
    from Cons.prems True
    have v: "visitChildren level cs (lv(c \<mapsto> level + 1), q @ [c]) = (lv', q')"
      and s: "set cs \<subseteq> U" by (simp_all add: set)
    have "card (U - dom lv') + length q'
            = card (U - dom (lv(c \<mapsto> level + 1))) + length (q @ [c])"
      by (rule Cons.IH [OF v s Cons.prems(3)])
    also have "\<dots> = card ((U - dom lv) - {c}) + Suc (length q)"
      by (simp only: eq length_append_singleton)
    also have "\<dots> = card (U - dom lv) + length q"
      using card_Suc_Diff1 [of "U - dom lv" c] c Cons.prems(3) by simp
    finally show ?thesis .
  next
    case False
    with Cons.prems have v: "visitChildren level cs (lv, q) = (lv', q')"
      and s: "set cs \<subseteq> U" by simp_all
    show ?thesis by (rule Cons.IH [OF v s Cons.prems(3)])
  qed
qed

text \<open>
  The \<^verbatim>\<open>while\<close> loop over the queue.  Every id in the queue was given a level of its own
  when it was pushed, so \<^verbatim>\<open>levels[parentId]\<close> is always a number (lemmas \<open>initLevels_queue\<close>
  and \<open>visitChildren_queue_levels\<close> below); the model skips an id for which it is not.  The
  loop ends with the exception of \<^verbatim>\<open>children.forEach\<close> when the id taken from the queue
  names an inherited member.
\<close>

function bfs :: "(string \<times> string list) list \<Rightarrow> levels \<Rightarrow> string list \<Rightarrow> error + levels" where
  "bfs cbp lv [] = Inr lv"
| "bfs cbp lv (parentId # queue) =
     (case childrenOf cbp parentId of
        Inl e \<Rightarrow> Inl e
      | Inr children \<Rightarrow>
          (case getEntry lv parentId of
             Own level \<Rightarrow>
               (case visitChildren level children (lv, queue) of
                  (lv', queue') \<Rightarrow> bfs cbp lv' queue')
           | _ \<Rightarrow> bfs cbp lv queue))"
  by pat_completeness auto
termination
proof (relation "measure (\<lambda>(cbp, lv, q). card (allChildren cbp - dom lv) + length q)")
  fix cbp :: "(string \<times> string list) list" and lv lv' :: levels
    and parentId :: string and queue queue' children :: "string list" and level :: nat
  assume c: "childrenOf cbp parentId = Inr children"
    and "getEntry lv parentId = Own level"
    and "(lv', queue') = visitChildren level children (lv, queue)"
  then have "visitChildren level children (lv, queue) = (lv', queue')"
    by simp
  from visitChildren_measure [OF this childrenOf_subset [OF c] finite_allChildren]
  show "((cbp, lv', queue'), (cbp, lv, parentId # queue))
          \<in> measure (\<lambda>(cbp, lv, q). card (allChildren cbp - dom lv) + length q)"
    by simp
qed simp_all

subsection \<open>Breadth-first distances\<close>

text \<open>
  \<open>walk cbp roots n v\<close>: \<open>v\<close> is reached from some id of \<open>roots\<close> by following exactly \<open>n\<close>
  parent-to-child links; \<open>walkDist cbp roots v d\<close>: the shortest such walk has \<open>d\<close> links.
\<close>

fun walk :: "(string \<times> string list) list \<Rightarrow> string list \<Rightarrow> nat \<Rightarrow> string \<Rightarrow> bool" where
  "walk cbp roots 0 v = (v \<in> set roots)"
| "walk cbp roots (Suc n) v = (\<exists>p. walk cbp roots n p \<and> v \<in> set (ownChildren cbp p))"

definition walkDist :: "(string \<times> string list) list \<Rightarrow> string list \<Rightarrow> string \<Rightarrow> nat \<Rightarrow> bool" where
  "walkDist cbp roots v d = (walk cbp roots d v \<and> (\<forall>m<d. \<not> walk cbp roots m v))"

lemma walkDist_unique: "walkDist cbp roots v d \<Longrightarrow> walkDist cbp roots v d' \<Longrightarrow> d = d'"
  unfolding walkDist_def by (meson nat_neq_iff)

lemma walk_has_walkDist:
  assumes "walk cbp roots n v"
  shows "\<exists>d\<le>n. walkDist cbp roots v d"
proof -
  let ?d = "LEAST m. walk cbp roots m v"
  have "walk cbp roots ?d v" using assms by (rule LeastI)
  moreover have "\<not> walk cbp roots m v" if "m < ?d" for m
    using that by (rule not_less_Least)
  moreover have "?d \<le> n" using assms by (rule Least_le)
  ultimately show ?thesis unfolding walkDist_def by blast
qed

lemma walkDist_zero: "walkDist cbp roots v 0 \<longleftrightarrow> v \<in> set roots"
  by (simp add: walkDist_def)

lemma walkDist_parent:
  assumes "walkDist cbp roots v (Suc d)"
  shows "\<exists>p. walkDist cbp roots p d \<and> v \<in> set (ownChildren cbp p)"
proof -
  from assms obtain p where p: "walk cbp roots d p" "v \<in> set (ownChildren cbp p)"
    by (auto simp: walkDist_def)
  from walk_has_walkDist [OF p(1)] obtain d' where d': "d' \<le> d" "walkDist cbp roots p d'" by blast
  have "d' = d"
  proof (rule ccontr)
    assume "d' \<noteq> d"
    with d'(1) have "Suc d' < Suc d" by simp
    moreover have "walk cbp roots (Suc d') v"
      using d'(2) p(2) by (auto simp: walkDist_def)
    ultimately show False using assms by (auto simp: walkDist_def)
  qed
  with d'(2) p(2) show ?thesis by blast
qed

lemma no_walkDist_beyond:
  assumes "\<forall>v. \<not> walkDist cbp roots v k" and "k \<le> m"
  shows "\<not> walkDist cbp roots v m"
  using assms(2)
proof (induction m arbitrary: v)
  case 0
  with assms(1) show ?case by simp
next
  case (Suc m)
  show ?case
  proof (cases "k = Suc m")
    case True
    with assms(1) show ?thesis by simp
  next
    case False
    with Suc.prems have "k \<le> m" by simp
    then have "\<not> walkDist cbp roots p m" for p by (rule Suc.IH)
    then show ?thesis using walkDist_parent [of cbp roots v m] by blast
  qed
qed

subsection \<open>The inner loop\<close>

lemma visitChildren_levels:
  "fst (visitChildren k cs (lv, q))
     = (\<lambda>v. if lv v = None \<and> \<not> inheritedName v \<and> v \<in> set cs then Some (Suc k) else lv v)"
proof (induction cs arbitrary: lv q)
  case Nil
  then show ?case by simp
next
  case (Cons c cs)
  show ?case
  proof (cases "getEntry lv c = Undefined")
    case True
    then have none: "lv c = None" and pl: "\<not> inheritedName c" by (simp_all add: getEntry_Undefined)
    have set: "setEntry c (Suc k) lv = lv(c \<mapsto> Suc k)" using pl by (rule setEntry_plain)
    from True have "fst (visitChildren k (c # cs) (lv, q))
                 = fst (visitChildren k cs (lv(c \<mapsto> Suc k), q @ [c]))" by (simp add: set)
    also have "\<dots> = (\<lambda>v. if (lv(c \<mapsto> Suc k)) v = None \<and> \<not> inheritedName v \<and> v \<in> set cs
                           then Some (Suc k) else (lv(c \<mapsto> Suc k)) v)"
      by (rule Cons.IH)
    also have "\<dots> = (\<lambda>v. if lv v = None \<and> \<not> inheritedName v \<and> v \<in> set (c # cs)
                           then Some (Suc k) else lv v)"
      using none pl by (intro ext) simp
    finally show ?thesis .
  next
    case False
    then have nc: "\<not> (lv c = None \<and> \<not> inheritedName c)" by (simp add: getEntry_Undefined)
    from False have "fst (visitChildren k (c # cs) (lv, q)) = fst (visitChildren k cs (lv, q))"
      by simp
    also have "\<dots> = (\<lambda>v. if lv v = None \<and> \<not> inheritedName v \<and> v \<in> set cs
                           then Some (Suc k) else lv v)"
      by (rule Cons.IH)
    also have "\<dots> = (\<lambda>v. if lv v = None \<and> \<not> inheritedName v \<and> v \<in> set (c # cs)
                           then Some (Suc k) else lv v)"
      using nc by (intro ext) auto
    finally show ?thesis .
  qed
qed

lemma visitChildren_queue:
  "\<exists>new. snd (visitChildren k cs (lv, q)) = q @ new
         \<and> set new = {c \<in> set cs. lv c = None \<and> \<not> inheritedName c}"
proof (induction cs arbitrary: lv q)
  case Nil
  then show ?case by simp
next
  case (Cons c cs)
  show ?case
  proof (cases "getEntry lv c = Undefined")
    case True
    then have none: "lv c = None" and pl: "\<not> inheritedName c" by (simp_all add: getEntry_Undefined)
    have set: "setEntry c (Suc k) lv = lv(c \<mapsto> Suc k)" using pl by (rule setEntry_plain)
    from Cons.IH [of "lv(c \<mapsto> Suc k)" "q @ [c]"] obtain new
      where new: "snd (visitChildren k cs (lv(c \<mapsto> Suc k), q @ [c])) = (q @ [c]) @ new"
        "set new = {x \<in> set cs. (lv(c \<mapsto> Suc k)) x = None \<and> \<not> inheritedName x}" by blast
    have "set (c # new) = {x \<in> set (c # cs). lv x = None \<and> \<not> inheritedName x}"
      using new(2) none pl by auto
    moreover have "snd (visitChildren k (c # cs) (lv, q)) = q @ (c # new)"
      using new(1) True by (simp add: set)
    ultimately show ?thesis by blast
  next
    case False
    then have nc: "\<not> (lv c = None \<and> \<not> inheritedName c)" by (simp add: getEntry_Undefined)
    from Cons.IH [of lv q] obtain new
      where "snd (visitChildren k cs (lv, q)) = q @ new"
        "set new = {x \<in> set cs. lv x = None \<and> \<not> inheritedName x}"
      by blast
    with False nc show ?thesis by auto
  qed
qed

text \<open>When no child names an inherited member, the loop sees exactly the children without a level.\<close>

lemma visitChildren_plain:
  assumes "\<forall>c\<in>set cs. \<not> inheritedName c"
  shows "\<exists>new. visitChildren k cs (lv, q)
                 = ((\<lambda>v. if lv v = None \<and> v \<in> set cs then Some (Suc k) else lv v), q @ new)
               \<and> set new = {c \<in> set cs. lv c = None}"
proof -
  from visitChildren_queue [of k cs lv q] obtain new
    where new: "snd (visitChildren k cs (lv, q)) = q @ new"
      "set new = {c \<in> set cs. lv c = None \<and> \<not> inheritedName c}" by blast
  have "(\<lambda>v. if lv v = None \<and> \<not> inheritedName v \<and> v \<in> set cs then Some (Suc k) else lv v)
          = (\<lambda>v. if lv v = None \<and> v \<in> set cs then Some (Suc k) else lv v)"
    using assms by (intro ext) auto
  then have "fst (visitChildren k cs (lv, q))
               = (\<lambda>v. if lv v = None \<and> v \<in> set cs then Some (Suc k) else lv v)"
    by (simp only: visitChildren_levels)
  moreover have "set new = {c \<in> set cs. lv c = None}" using new(2) assms by auto
  ultimately show ?thesis using new(1) by (auto simp: prod_eq_iff)
qed

subsection \<open>The loop invariant\<close>

text \<open>
  The queue is \<open>A @ B\<close>: \<open>A\<close> holds ids of level \<open>k\<close> still to be expanded, \<open>B\<close> all ids of level
  \<open>k + 1\<close> found so far.  Levels already assigned are shortest distances, every id of
  distance at most \<open>k\<close> has its level, and an id of distance \<open>k + 1\<close> without a level has a
  parent waiting in \<open>A\<close>.
\<close>

definition bfs_inv ::
  "(string \<times> string list) list \<Rightarrow> string list \<Rightarrow> levels \<Rightarrow> nat \<Rightarrow> string list \<Rightarrow> string list
     \<Rightarrow> bool" where
  "bfs_inv cbp roots lv k A B =
     ((\<forall>v d. lv v = Some d \<longrightarrow> walkDist cbp roots v d)
    \<and> (\<forall>v\<in>set A. lv v = Some k)
    \<and> (\<forall>v\<in>set B. lv v = Some (Suc k))
    \<and> (\<forall>v d. walkDist cbp roots v d \<and> d \<le> k \<longrightarrow> lv v = Some d)
    \<and> (\<forall>v. walkDist cbp roots v (Suc k)
           \<longrightarrow> lv v = Some (Suc k) \<or> (\<exists>p\<in>set A. v \<in> set (ownChildren cbp p)))
    \<and> (\<forall>v. lv v = Some (Suc k) \<longrightarrow> v \<in> set B)
    \<and> (\<forall>v d. lv v = Some d \<longrightarrow> d \<le> Suc k))"

lemma bfs_invI:
  assumes "\<And>v d. lv v = Some d \<Longrightarrow> walkDist cbp roots v d"
    and "\<And>v. v \<in> set A \<Longrightarrow> lv v = Some k"
    and "\<And>v. v \<in> set B \<Longrightarrow> lv v = Some (Suc k)"
    and "\<And>v d. walkDist cbp roots v d \<Longrightarrow> d \<le> k \<Longrightarrow> lv v = Some d"
    and "\<And>v. walkDist cbp roots v (Suc k) \<Longrightarrow> lv v \<noteq> Some (Suc k)
           \<Longrightarrow> \<exists>p\<in>set A. v \<in> set (ownChildren cbp p)"
    and "\<And>v. lv v = Some (Suc k) \<Longrightarrow> v \<in> set B"
    and "\<And>v d. lv v = Some d \<Longrightarrow> d \<le> Suc k"
  shows "bfs_inv cbp roots lv k A B"
proof -
  have 1: "\<forall>v d. lv v = Some d \<longrightarrow> walkDist cbp roots v d" using assms(1) by simp
  have 2: "\<forall>v\<in>set A. lv v = Some k" using assms(2) by simp
  have 3: "\<forall>v\<in>set B. lv v = Some (Suc k)" using assms(3) by simp
  have 4: "\<forall>v d. walkDist cbp roots v d \<and> d \<le> k \<longrightarrow> lv v = Some d" using assms(4) by simp
  have 5: "\<forall>v. walkDist cbp roots v (Suc k)
           \<longrightarrow> lv v = Some (Suc k) \<or> (\<exists>p\<in>set A. v \<in> set (ownChildren cbp p))"
  proof (intro allI impI)
    fix v assume "walkDist cbp roots v (Suc k)"
    then show "lv v = Some (Suc k) \<or> (\<exists>p\<in>set A. v \<in> set (ownChildren cbp p))"
      using assms(5) [of v] by (cases "lv v = Some (Suc k)") simp_all
  qed
  have 6: "\<forall>v. lv v = Some (Suc k) \<longrightarrow> v \<in> set B" using assms(6) by simp
  have 7: "\<forall>v d. lv v = Some d \<longrightarrow> d \<le> Suc k" using assms(7) by simp
  show ?thesis
    unfolding bfs_inv_def using 1 2 3 4 5 6 7 by (intro conjI) assumption+
qed

lemma bfs_inv_sound:
  assumes "bfs_inv cbp roots lv k A B" and "lv v = Some d"
  shows "walkDist cbp roots v d"
proof -
  from assms(1) have "\<forall>v d. lv v = Some d \<longrightarrow> walkDist cbp roots v d"
    unfolding bfs_inv_def by (elim conjE)
  then have "lv v = Some d \<longrightarrow> walkDist cbp roots v d" by (elim allE [of _ v] allE [of _ d])
  with assms(2) show ?thesis by simp
qed

lemma bfs_inv_A: "bfs_inv cbp roots lv k A B \<Longrightarrow> v \<in> set A \<Longrightarrow> lv v = Some k"
  unfolding bfs_inv_def by (elim conjE) (erule (1) bspec)

lemma bfs_inv_B: "bfs_inv cbp roots lv k A B \<Longrightarrow> v \<in> set B \<Longrightarrow> lv v = Some (Suc k)"
  unfolding bfs_inv_def by (elim conjE) (erule (1) bspec)

lemma bfs_inv_complete:
  assumes "bfs_inv cbp roots lv k A B" and "walkDist cbp roots v d" and "d \<le> k"
  shows "lv v = Some d"
proof -
  from assms(1) have "\<forall>v d. walkDist cbp roots v d \<and> d \<le> k \<longrightarrow> lv v = Some d"
    unfolding bfs_inv_def by (elim conjE)
  with assms(2,3) show ?thesis by (elim allE [of _ v] allE [of _ d] impE) (rule conjI)
qed

lemma bfs_inv_frontier:
  assumes "bfs_inv cbp roots lv k A B" and "walkDist cbp roots v (Suc k)"
    and "lv v \<noteq> Some (Suc k)"
  shows "\<exists>p\<in>set A. v \<in> set (ownChildren cbp p)"
proof -
  from assms(1) have "\<forall>v. walkDist cbp roots v (Suc k)
           \<longrightarrow> lv v = Some (Suc k) \<or> (\<exists>p\<in>set A. v \<in> set (ownChildren cbp p))"
    unfolding bfs_inv_def by (elim conjE)
  then have "walkDist cbp roots v (Suc k)
           \<longrightarrow> lv v = Some (Suc k) \<or> (\<exists>p\<in>set A. v \<in> set (ownChildren cbp p))" by (rule spec)
  with assms(2,3) show ?thesis by simp
qed

lemma bfs_inv_inB:
  assumes "bfs_inv cbp roots lv k A B" and "lv v = Some (Suc k)"
  shows "v \<in> set B"
proof -
  from assms(1) have "\<forall>v. lv v = Some (Suc k) \<longrightarrow> v \<in> set B"
    unfolding bfs_inv_def by (elim conjE)
  then have "lv v = Some (Suc k) \<longrightarrow> v \<in> set B" by (rule spec)
  with assms(2) show ?thesis by simp
qed

lemma bfs_inv_bound:
  assumes "bfs_inv cbp roots lv k A B" and "lv v = Some d"
  shows "d \<le> Suc k"
proof -
  from assms(1) have "\<forall>v d. lv v = Some d \<longrightarrow> d \<le> Suc k"
    unfolding bfs_inv_def by (elim conjE)
  then have "lv v = Some d \<longrightarrow> d \<le> Suc k" by (elim allE [of _ v] allE [of _ d])
  with assms(2) show ?thesis by simp
qed

lemma bfs_inv_shift:
  assumes inv: "bfs_inv cbp roots lv k [] B"
  shows "bfs_inv cbp roots lv (Suc k) B []"
proof (rule bfs_invI)
  fix v d assume "lv v = Some d"
  then show "walkDist cbp roots v d" by (rule bfs_inv_sound [OF inv])
next
  fix v assume "v \<in> set B"
  then show "lv v = Some (Suc k)" by (rule bfs_inv_B [OF inv])
next
  fix v :: string assume "v \<in> set []"
  then show "lv v = Some (Suc (Suc k))" by simp
next
  fix v d assume d: "walkDist cbp roots v d" "d \<le> Suc k"
  show "lv v = Some d"
  proof (cases "d = Suc k")
    case True
    show ?thesis
    proof (rule ccontr)
      assume "lv v \<noteq> Some d"
      with bfs_inv_frontier [OF inv, of v] d(1) True
      have "\<exists>p\<in>set []. v \<in> set (ownChildren cbp p)" by blast
      then show False by simp
    qed
  next
    case False
    with d(2) have "d \<le> k" by simp
    with d(1) show ?thesis by (rule bfs_inv_complete [OF inv])
  qed
  note all = this
next
  fix v assume v: "walkDist cbp roots v (Suc (Suc k))"
  from walkDist_parent [OF v] obtain p
    where p: "walkDist cbp roots p (Suc k)" "v \<in> set (ownChildren cbp p)" by blast
  have "lv p = Some (Suc k)"
  proof (rule ccontr)
    assume "lv p \<noteq> Some (Suc k)"
    with bfs_inv_frontier [OF inv p(1)]
    have "\<exists>q\<in>set []. p \<in> set (ownChildren cbp q)" by blast
    then show False by simp
  qed
  then have "p \<in> set B" by (rule bfs_inv_inB [OF inv])
  with p(2) show "\<exists>p\<in>set B. v \<in> set (ownChildren cbp p)" by blast
next
  fix v assume "lv v = Some (Suc (Suc k))"
  from bfs_inv_bound [OF inv this] show "v \<in> set []" by simp
next
  fix v d assume "lv v = Some d"
  from bfs_inv_bound [OF inv this] show "d \<le> Suc (Suc k)" by simp
qed

lemma bfs_inv_step:
  assumes inv: "bfs_inv cbp roots lv k (p # A) B"
    and plain: "\<forall>p. \<forall>c\<in>set (ownChildren cbp p). \<not> inheritedName c"
  shows "\<exists>lv' B'. visitChildren k (ownChildren cbp p) (lv, A @ B) = (lv', A @ B')
                  \<and> bfs_inv cbp roots lv' k A B'"
proof -
  let ?cs = "ownChildren cbp p"
  let ?lv' = "\<lambda>v. if lv v = None \<and> v \<in> set ?cs then Some (Suc k) else lv v"
  have "\<forall>c\<in>set ?cs. \<not> inheritedName c"
    using plain by blast
  from visitChildren_plain [OF this, of k lv "A @ B"] obtain new
    where res0: "visitChildren k ?cs (lv, A @ B) = (?lv', (A @ B) @ new)"
      and new: "set new = {c \<in> set ?cs. lv c = None}" by blast
  have res: "visitChildren k ?cs (lv, A @ B) = (?lv', A @ (B @ new))"
    using res0 by simp
  have p: "walkDist cbp roots p k"
    using bfs_inv_sound [OF inv] bfs_inv_A [OF inv, of p] by simp
  have keep: "?lv' v = lv v" if "lv v \<noteq> None" for v
    using that by simp
  have fresh: "walkDist cbp roots v (Suc k)" if "lv v = None" "v \<in> set ?cs" for v
  proof -
    have "walk cbp roots (Suc k) v"
      using p that(2) by (auto simp: walkDist_def)
    moreover have "\<not> walk cbp roots m v" if "m < Suc k" for m
    proof
      assume "walk cbp roots m v"
      from walk_has_walkDist [OF this] obtain d where d: "d \<le> m" "walkDist cbp roots v d" by blast
      with \<open>m < Suc k\<close> have "d \<le> k" by simp
      from bfs_inv_complete [OF inv d(2) this] \<open>lv v = None\<close> show False by simp
    qed
    ultimately show ?thesis by (simp add: walkDist_def)
  qed
  have "bfs_inv cbp roots ?lv' k A (B @ new)"
  proof (rule bfs_invI)
    fix v d assume a: "?lv' v = Some d"
    show "walkDist cbp roots v d"
    proof (cases "lv v = None \<and> v \<in> set ?cs")
      case True
      with a have "d = Suc k" by simp
      with True fresh show ?thesis by blast
    next
      case False
      with a have "lv v = Some d" by (simp split: if_splits)
      then show ?thesis by (rule bfs_inv_sound [OF inv])
    qed
  next
    fix v assume "v \<in> set A"
    then have "lv v = Some k" using bfs_inv_A [OF inv, of v] by simp
    then show "?lv' v = Some k" by simp
  next
    fix v assume "v \<in> set (B @ new)"
    then consider "v \<in> set B" | "v \<in> set new" by auto
    then show "?lv' v = Some (Suc k)"
    proof cases
      case 1
      then have "lv v = Some (Suc k)" by (rule bfs_inv_B [OF inv])
      then show ?thesis by simp
    next
      case 2
      with new show ?thesis by simp
    qed
  next
    fix v d assume "walkDist cbp roots v d" "d \<le> k"
    then have "lv v = Some d" by (rule bfs_inv_complete [OF inv])
    then show "?lv' v = Some d" by simp
  next
    fix v assume v: "walkDist cbp roots v (Suc k)" "?lv' v \<noteq> Some (Suc k)"
    from v(2) have nl: "lv v \<noteq> Some (Suc k)" by (auto split: if_splits)
    from bfs_inv_frontier [OF inv v(1) nl] obtain p'
      where p': "p' \<in> set (p # A)" "v \<in> set (ownChildren cbp p')" by blast
    have "p' \<noteq> p"
    proof
      assume "p' = p"
      with p'(2) have cs: "v \<in> set ?cs" by simp
      show False
      proof (cases "lv v")
        case None
        with cs v(2) show False by simp
      next
        case (Some d)
        from bfs_inv_sound [OF inv Some] v(1) have "d = Suc k" by (rule walkDist_unique)
        with Some nl show False by simp
      qed
    qed
    with p' show "\<exists>p\<in>set A. v \<in> set (ownChildren cbp p)" by auto
  next
    fix v assume a: "?lv' v = Some (Suc k)"
    show "v \<in> set (B @ new)"
    proof (cases "lv v = None \<and> v \<in> set ?cs")
      case True
      with new show ?thesis by simp
    next
      case False
      with a have "lv v = Some (Suc k)" by (simp split: if_splits)
      from bfs_inv_inB [OF inv this] show ?thesis by simp
    qed
  next
    fix v d assume a: "?lv' v = Some d"
    show "d \<le> Suc k"
    proof (cases "lv v = None \<and> v \<in> set ?cs")
      case True
      with a show ?thesis by simp
    next
      case False
      with a have "lv v = Some d" by (simp split: if_splits)
      then show ?thesis by (rule bfs_inv_bound [OF inv])
    qed
  qed
  with res show ?thesis by blast
qed

lemma bfs_inv_final:
  assumes inv: "bfs_inv cbp roots lv k [] []"
  shows "lv v = Some d \<longleftrightarrow> walkDist cbp roots v d"
proof
  assume "lv v = Some d"
  then show "walkDist cbp roots v d" by (rule bfs_inv_sound [OF inv])
next
  assume d: "walkDist cbp roots v d"
  have none: "\<not> walkDist cbp roots w (Suc k)" for w
  proof
    assume w: "walkDist cbp roots w (Suc k)"
    have "lv w = Some (Suc k)"
    proof (rule ccontr)
      assume "lv w \<noteq> Some (Suc k)"
      from bfs_inv_frontier [OF inv w this] show False by simp
    qed
    from bfs_inv_inB [OF inv this] show False by simp
  qed
  have "d \<le> k"
  proof (rule ccontr)
    assume "\<not> d \<le> k"
    then have "Suc k \<le> d" by simp
    with none have "\<not> walkDist cbp roots v d" by (intro no_walkDist_beyond [of cbp roots "Suc k"]) auto
    with d show False by simp
  qed
  with d show "lv v = Some d" by (rule bfs_inv_complete [OF inv])
qed

text \<open>Ids reached from plain roots along plain children are plain.\<close>

lemma walk_plain:
  assumes "\<forall>r\<in>set roots. \<not> inheritedName r" and "\<forall>p. \<forall>c\<in>set (ownChildren cbp p). \<not> inheritedName c"
    and "walk cbp roots n v"
  shows "\<not> inheritedName v"
proof (cases n)
  case 0
  with assms(1,3) show ?thesis by simp
next
  case (Suc m)
  with assms(3) obtain p where "v \<in> set (ownChildren cbp p)" by auto
  with assms(2) show ?thesis by blast
qed

lemma bfs_correct:
  assumes "bfs_inv cbp roots lv k A B" and "q = A @ B"
    and "\<forall>r\<in>set roots. \<not> inheritedName r" and "\<forall>p. \<forall>c\<in>set (ownChildren cbp p). \<not> inheritedName c"
  shows "\<exists>lv'. bfs cbp lv q = Inr lv' \<and> (\<forall>v d. lv' v = Some d \<longleftrightarrow> walkDist cbp roots v d)"
  using assms
proof (induction cbp lv q arbitrary: k A B rule: bfs.induct)
  case (1 cbp lv)
  then have "bfs_inv cbp roots lv k [] []" by simp
  from bfs_inv_final [OF this] show ?case by simp
next
  case (2 cbp lv parentId queue)
  obtain k' A' B' where inv: "bfs_inv cbp roots lv k' (parentId # A') B'"
    and q: "queue = A' @ B'"
  proof (cases A)
    case Nil
    with "2.prems" have "bfs_inv cbp roots lv (Suc k) B []" "B = parentId # queue"
      by (simp_all add: bfs_inv_shift)
    then show ?thesis using that [of "Suc k" queue "[]"] by simp
  next
    case (Cons a A'')
    with "2.prems" show ?thesis using that [of k A'' B] by simp
  qed
  have lvp: "lv parentId = Some k'" using bfs_inv_A [OF inv, of parentId] by simp
  then have own: "getEntry lv parentId = Own k'" by simp
  from bfs_inv_sound [OF inv lvp] have "walk cbp roots k' parentId" by (simp add: walkDist_def)
  from walk_plain [OF "2.prems"(3,4) this]
  have ch: "childrenOf cbp parentId = Inr (ownChildren cbp parentId)" by (rule childrenOf_plain)
  from bfs_inv_step [OF inv "2.prems"(4)] obtain lv' B''
    where step: "visitChildren k' (ownChildren cbp parentId) (lv, A' @ B') = (lv', A' @ B'')"
      and inv': "bfs_inv cbp roots lv' k' A' B''" by blast
  have unfold: "bfs cbp lv (parentId # queue) = bfs cbp lv' (A' @ B'')"
    using ch lvp step q by (simp add: getEntry_def)
  have eq: "(lv', A' @ B'') = visitChildren k' (ownChildren cbp parentId) (lv, queue)"
    using step q by simp
  have "\<exists>lv''. bfs cbp lv' (A' @ B'') = Inr lv''
              \<and> (\<forall>v d. lv'' v = Some d \<longleftrightarrow> walkDist cbp roots v d)"
    by (rule "2.IH"(1) [OF ch own eq inv' refl "2.prems"(3,4)])
  with unfold show ?case by simp
qed

subsection \<open>Own property keys of an object\<close>

text \<open>
  \<^verbatim>\<open>Object.keys\<close> lists the keys that are array indices (canonical decimal strings below
  \<open>2\<^sup>3\<^sup>2 - 1\<close>) first, in ascending numeric order, and then the other keys in the order
  of their creation.
\<close>

definition isDigit :: "char \<Rightarrow> bool" where
  "isDigit c = (c \<in> set ''0123456789'')"

fun positionIn :: "char \<Rightarrow> string \<Rightarrow> nat" where
  "positionIn c [] = 0"
| "positionIn c (d # ds) = (if c = d then 0 else 1 + positionIn c ds)"

text \<open>The value of a decimal digit; 10 for any other character.\<close>

definition digitOf :: "char \<Rightarrow> nat" where
  "digitOf c = positionIn c ''0123456789''"

definition digitsValue :: "string \<Rightarrow> nat" where
  "digitsValue s = foldl (\<lambda>a c. 10 * a + digitOf c) 0 s"

definition arrayIndex :: "string \<Rightarrow> nat option" where
  "arrayIndex s =
     (if s \<noteq> [] \<and> list_all isDigit s \<and> (s = ''0'' \<or> hd s \<noteq> CHR ''0'')
         \<and> digitsValue s < 4294967295
      then Some (digitsValue s) else None)"

definition Object_keys :: "(string \<times> 'a) list \<Rightarrow> string list" where
  "Object_keys obj =
     (let ks = map fst obj
      in map snd (sort_key fst
                    (concat (map (\<lambda>k. case arrayIndex k of None \<Rightarrow> [] | Some i \<Rightarrow> [(i, k)]) ks)))
         @ filter (\<lambda>k. arrayIndex k = None) ks)"

lemma set_Object_keys [simp]: "set (Object_keys obj) = fst ` set obj"
proof -
  have "set (Object_keys obj)
          = {k \<in> fst ` set obj. arrayIndex k \<noteq> None} \<union> {k \<in> fst ` set obj. arrayIndex k = None}"
    unfolding Object_keys_def Let_def
    by (auto split: option.splits simp: image_iff) force+
  then show ?thesis by auto
qed

subsection \<open>Levels\<close>

text \<open>\<^verbatim>\<open>roots.forEach\<close>: every root gets level 0 and is queued.\<close>

definition initLevels :: "string list \<Rightarrow> levels \<times> string list" where
  "initLevels roots = fold (\<lambda>id (lv, queue). (setEntry id 0 lv, queue @ [id])) roots (Map.empty, [])"

text \<open>The loop after the queue: an id for which \<^verbatim>\<open>levels[id] === undefined\<close> gets level 0.\<close>

definition fillLevels :: "string list \<Rightarrow> levels \<Rightarrow> levels" where
  "fillLevels allNodeIds lv =
     fold (\<lambda>id lv. if getEntry lv id = Undefined then setEntry id 0 lv else lv) allNodeIds lv"

text \<open>
  The levels after the queue loop.  An exception thrown by the loop over the raw edges, or
  by the queue loop, ends the computation.
\<close>

definition bfsLevels :: "RawNode list \<Rightarrow> RawEdge list \<Rightarrow> error + levels" where
  "bfsLevels rawNodes rawEdges =
     (let nodeMap = buildNodeMap rawNodes;
          acc = loadEdges rawEdges
      in case acc_thrown acc of
           Some e \<Rightarrow> Inl e
         | None \<Rightarrow>
             let allNodeIds = Object_keys nodeMap;
                 roots = filter (\<lambda>id. id \<notin> childSet acc) allNodeIds;
                 (lv0, queue0) = initLevels roots
             in bfs (childrenByParent acc) lv0 queue0)"

definition computeLevels :: "RawNode list \<Rightarrow> RawEdge list \<Rightarrow> error + levels" where
  "computeLevels rawNodes rawEdges =
     (case bfsLevels rawNodes rawEdges of
        Inl e \<Rightarrow> Inl e
      | Inr lv \<Rightarrow> Inr (fillLevels (Object_keys (buildNodeMap rawNodes)) lv))"

subsection \<open>Distances in the input graph\<close>

definition hierarchyLinks :: "RawEdge list \<Rightarrow> (string \<times> string) list" where
  "hierarchyLinks rawEdges =
     map (\<lambda>e. (re_source e, re_target e)) (filter (\<lambda>e. re_type e = ''HIERARCHY'') rawEdges)"

definition isRoot :: "RawNode list \<Rightarrow> RawEdge list \<Rightarrow> string \<Rightarrow> bool" where
  "isRoot rawNodes rawEdges v =
     (v \<in> set (map rn_id rawNodes) \<and> v \<notin> set (map snd (hierarchyLinks rawEdges)))"

text \<open>\<open>v\<close> is reached from some root by following exactly \<open>n\<close> hierarchy links.\<close>

fun reachedIn :: "RawNode list \<Rightarrow> RawEdge list \<Rightarrow> nat \<Rightarrow> string \<Rightarrow> bool" where
  "reachedIn rawNodes rawEdges 0 v = isRoot rawNodes rawEdges v"
| "reachedIn rawNodes rawEdges (Suc n) v =
     list_ex (\<lambda>(p, c). c = v \<and> reachedIn rawNodes rawEdges n p) (hierarchyLinks rawEdges)"

definition bfsDistance :: "RawNode list \<Rightarrow> RawEdge list \<Rightarrow> string \<Rightarrow> nat \<Rightarrow> bool" where
  "bfsDistance rawNodes rawEdges v d =
     (reachedIn rawNodes rawEdges d v \<and> (\<forall>m<d. \<not> reachedIn rawNodes rawEdges m v))"

text \<open>
  A plain graph: no node id and no end of a hierarchy edge is the name of a member of
  \<^verbatim>\<open>Object.prototype\<close>.
\<close>

definition plainGraph :: "RawNode list \<Rightarrow> RawEdge list \<Rightarrow> bool" where
  "plainGraph rawNodes rawEdges =
     (list_all (\<lambda>n. \<not> inheritedName (rn_id n)) rawNodes
      \<and> list_all (\<lambda>e. re_type e \<noteq> ''HIERARCHY''
                        \<or> (\<not> inheritedName (re_source e) \<and> \<not> inheritedName (re_target e)))
           rawEdges)"

subsection \<open>The loader's maps on a plain graph\<close>

lemma plainGraph_sources: "plainGraph ns es \<Longrightarrow> plainSources es"
  by (auto simp: plainGraph_def plainSources_def list_all_iff)

lemma children_loadEdges:
  assumes "plainSources es"
  shows "set (ownChildren (childrenByParent (loadEdges es)) p)
           = {c. (p, c) \<in> set (hierarchyLinks es)}"
  by (auto simp: loadEdges_plain(5) [OF assms] hierarchyLinks_def)

lemma childSet_loadEdges:
  assumes "plainSources es"
  shows "childSet (loadEdges es) = set (map snd (hierarchyLinks es))"
  by (auto simp: loadEdges_plain(4) [OF assms] hierarchyLinks_def)

lemma plainGraph_children:
  assumes "plainGraph ns es"
  shows "\<forall>p. \<forall>c\<in>set (ownChildren (childrenByParent (loadEdges es)) p). \<not> inheritedName c"
proof (intro allI ballI)
  fix p c assume "c \<in> set (ownChildren (childrenByParent (loadEdges es)) p)"
  then have "(p, c) \<in> set (hierarchyLinks es)"
    by (simp add: children_loadEdges [OF plainGraph_sources [OF assms]])
  with assms show "\<not> inheritedName c"
    by (auto simp: plainGraph_def hierarchyLinks_def list_all_iff)
qed

lemma keys_update: "fst ` set (AList.update k v al) = insert k (fst ` set al)"
  using dom_update [of k v al] by (simp add: dom_map_of_conv_image_fst)

lemma fold_setProp_keys:
  "fst ` set (fold (\<lambda>n m. setProp (rn_id n) (mkNode n) m) ns m0)
     = fst ` set m0 \<union> (rn_id ` set ns - {''__proto__''})"
proof (induction ns arbitrary: m0)
  case Nil
  then show ?case by simp
next
  case (Cons n ns)
  have "fst ` set (setProp (rn_id n) (mkNode n) m0)
          = fst ` set m0 \<union> ({rn_id n} - {''__proto__''})"
    by (auto simp: setProp_def keys_update)
  then show ?case by (simp add: Cons.IH) blast
qed

text \<open>The keys of \<open>nodeMap\<close> are the node ids, except \<^verbatim>\<open>__proto__\<close>.\<close>

lemma keys_buildNodeMap: "fst ` set (buildNodeMap ns) = rn_id ` set ns - {''__proto__''}"
  by (simp add: buildNodeMap_def fold_setProp_keys)

lemma keys_plain:
  assumes "plainGraph ns es"
  shows "fst ` set (buildNodeMap ns) = rn_id ` set ns"
proof -
  have "''__proto__'' \<notin> rn_id ` set ns"
  proof
    assume "''__proto__'' \<in> rn_id ` set ns"
    then obtain n where "n \<in> set ns" "rn_id n = ''__proto__''" by auto
    with assms have "\<not> inheritedName ''__proto__''"
      by (auto simp: plainGraph_def list_all_iff simp del: inheritedName_proto)
    then show False by simp
  qed
  then show ?thesis by (simp add: keys_buildNodeMap)
qed

lemma fold_initLevels:
  assumes "\<forall>r\<in>set roots. \<not> inheritedName r"
  shows "fold (\<lambda>id (lv, queue). (setEntry id (0::nat) lv, queue @ [id])) roots (lv, q)
           = ((\<lambda>v. if v \<in> set roots then Some 0 else lv v), q @ roots)"
  using assms
proof (induction roots arbitrary: lv q)
  case Nil
  then show ?case by simp
next
  case (Cons r roots)
  then have pl: "\<not> inheritedName r" and rest: "\<forall>r\<in>set roots. \<not> inheritedName r" by simp_all
  have "fold (\<lambda>id (lv, queue). (setEntry id (0::nat) lv, queue @ [id])) (r # roots) (lv, q)
          = fold (\<lambda>id (lv, queue). (setEntry id (0::nat) lv, queue @ [id])) roots
              (lv(r \<mapsto> 0), q @ [r])"
    by (simp add: setEntry_plain [OF pl])
  also have "\<dots> = ((\<lambda>v. if v \<in> set roots then Some 0 else (lv(r \<mapsto> 0)) v), (q @ [r]) @ roots)"
    by (rule Cons.IH [OF rest])
  also have "(\<lambda>v. if v \<in> set roots then Some 0 else (lv(r \<mapsto> 0::nat)) v)
          = (\<lambda>v. if v \<in> set (r # roots) then Some (0::nat) else lv v)"
    by (intro ext) simp
  finally show ?case by simp
qed

lemma initLevels_eq:
  assumes "\<forall>r\<in>set roots. \<not> inheritedName r"
  shows "initLevels roots = ((\<lambda>v. if v \<in> set roots then Some 0 else None), roots)"
  by (simp add: initLevels_def fold_initLevels [OF assms])

lemma bfs_inv_init:
  "bfs_inv cbp roots (\<lambda>v. if v \<in> set roots then Some 0 else None) 0 roots []"
proof (rule bfs_invI)
  fix v and d :: nat assume "(if v \<in> set roots then Some 0 else None) = Some d"
  then have "v \<in> set roots" "d = 0" by (simp_all split: if_splits)
  then show "walkDist cbp roots v d" by (simp add: walkDist_zero)
next
  fix v d assume "walkDist cbp roots v d" "d \<le> 0"
  then have "v \<in> set roots" "d = 0" by (simp_all add: walkDist_zero)
  then show "(if v \<in> set roots then Some 0 else None) = Some d" by simp
next
  fix v assume "walkDist cbp roots v (Suc 0)"
  from walkDist_parent [OF this] obtain p
    where "walkDist cbp roots p 0" "v \<in> set (ownChildren cbp p)" by blast
  then show "\<exists>p\<in>set roots. v \<in> set (ownChildren cbp p)" by (auto simp: walkDist_zero)
next
  fix v assume "(if v \<in> set roots then Some 0 else None) = Some (Suc 0)"
  then show "v \<in> set []" by (simp split: if_splits)
next
  fix v and d :: nat assume "(if v \<in> set roots then Some 0 else None) = Some d"
  then show "d \<le> Suc 0" by (simp split: if_splits)
qed simp_all

lemma fillLevels_eq:
  "fillLevels ids lv
     = (\<lambda>v. if lv v = None \<and> \<not> inheritedName v \<and> v \<in> set ids then Some 0 else lv v)"
  unfolding fillLevels_def
proof (induction ids arbitrary: lv)
  case Nil
  then show ?case by simp
next
  case (Cons i ids)
  show ?case
  proof (cases "getEntry lv i = Undefined")
    case True
    then have none: "lv i = None" and pl: "\<not> inheritedName i" by (simp_all add: getEntry_Undefined)
    have "(\<lambda>v. if (lv(i \<mapsto> 0)) v = None \<and> \<not> inheritedName v \<and> v \<in> set ids
                then Some 0 else (lv(i \<mapsto> 0)) v)
            = (\<lambda>v. if lv v = None \<and> \<not> inheritedName v \<and> v \<in> set (i # ids) then Some 0 else lv v)"
      using none pl by (intro ext) auto
    with True show ?thesis by (simp add: Cons.IH setEntry_plain [OF pl])
  next
    case False
    then have nc: "\<not> (lv i = None \<and> \<not> inheritedName i)" by (simp add: getEntry_Undefined)
    have "(\<lambda>v. if lv v = None \<and> \<not> inheritedName v \<and> v \<in> set ids then Some 0 else lv v)
            = (\<lambda>v. if lv v = None \<and> \<not> inheritedName v \<and> v \<in> set (i # ids) then Some 0 else lv v)"
      using nc by (intro ext) auto
    with False show ?thesis by (simp add: Cons.IH)
  qed
qed

definition inputRoots :: "RawNode list \<Rightarrow> RawEdge list \<Rightarrow> string list" where
  "inputRoots ns es =
     filter (\<lambda>id. id \<notin> childSet (loadEdges es)) (Object_keys (buildNodeMap ns))"

lemma set_inputRoots:
  assumes "plainGraph ns es"
  shows "v \<in> set (inputRoots ns es) \<longleftrightarrow> isRoot ns es v"
  by (auto simp: inputRoots_def isRoot_def keys_plain [OF assms]
        childSet_loadEdges [OF plainGraph_sources [OF assms]])

lemma plain_inputRoots:
  assumes "plainGraph ns es"
  shows "\<forall>r\<in>set (inputRoots ns es). \<not> inheritedName r"
proof
  fix r assume "r \<in> set (inputRoots ns es)"
  then have "r \<in> rn_id ` set ns" by (simp add: set_inputRoots [OF assms] isRoot_def)
  with assms show "\<not> inheritedName r" by (auto simp: plainGraph_def list_all_iff)
qed

lemma bfsLevels_walkDist:
  assumes "plainGraph ns es"
  shows "\<exists>lv. bfsLevels ns es = Inr lv
            \<and> (\<forall>v d. lv v = Some d
                  \<longleftrightarrow> walkDist (childrenByParent (loadEdges es)) (inputRoots ns es) v d)"
proof -
  note pr = plain_inputRoots [OF assms]
  have "acc_thrown (loadEdges es) = None"
    by (rule loadEdges_plain(1) [OF plainGraph_sources [OF assms]])
  then have "bfsLevels ns es
          = bfs (childrenByParent (loadEdges es))
              (\<lambda>v. if v \<in> set (inputRoots ns es) then Some 0 else None) (inputRoots ns es)"
    using initLevels_eq [OF pr] by (simp add: bfsLevels_def Let_def inputRoots_def)
  then show ?thesis
    using bfs_correct [OF bfs_inv_init [of "childrenByParent (loadEdges es)" "inputRoots ns es"] _
                         pr plainGraph_children [OF assms], of "inputRoots ns es"]
    by simp
qed

lemma walk_reachedIn:
  assumes "plainGraph ns es"
  shows "walk (childrenByParent (loadEdges es)) (inputRoots ns es) n v \<longleftrightarrow> reachedIn ns es n v"
proof (induction n arbitrary: v)
  case 0
  show ?case by (simp add: set_inputRoots [OF assms])
next
  case (Suc n)
  show ?case
    by (simp add: Suc.IH children_loadEdges [OF plainGraph_sources [OF assms]] list_ex_iff)
       (auto simp: hierarchyLinks_def)
qed

lemma walkDist_bfsDistance:
  assumes "plainGraph ns es"
  shows "walkDist (childrenByParent (loadEdges es)) (inputRoots ns es) v d
           \<longleftrightarrow> bfsDistance ns es v d"
  by (simp add: walkDist_def bfsDistance_def walk_reachedIn [OF assms])

text \<open>
  On a plain graph the levels are the breadth-first distances.  For every node id \<open>v\<close> of the
  input: a root gets depth 0; if \<open>v\<close> is reached from a root, its depth is the length of the
  shortest chain of hierarchy edges from any root; and if no chain of hierarchy edges from a
  root reaches \<open>v\<close>, its depth is 0.  The edge set may be cyclic.
\<close>

lemma plain_depth_is_bfs_distance:
  assumes "plainGraph rawNodes rawEdges" and "v \<in> set (map rn_id rawNodes)"
  shows "\<exists>lv. computeLevels rawNodes rawEdges = Inr lv
           \<and> (isRoot rawNodes rawEdges v \<longrightarrow> getEntry lv v = Own 0)
           \<and> (\<forall>d. bfsDistance rawNodes rawEdges v d \<longrightarrow> getEntry lv v = Own d)
           \<and> ((\<forall>n. \<not> reachedIn rawNodes rawEdges n v) \<longrightarrow> getEntry lv v = Own 0)"
proof -
  from bfsLevels_walkDist [OF assms(1)] obtain lv0
    where lv0: "bfsLevels rawNodes rawEdges = Inr lv0"
      and dist: "\<And>v d. lv0 v = Some d \<longleftrightarrow> bfsDistance rawNodes rawEdges v d"
    by (auto simp: walkDist_bfsDistance [OF assms(1)])
  let ?lv = "fillLevels (Object_keys (buildNodeMap rawNodes)) lv0"
  have pv: "\<not> inheritedName v" using assms by (auto simp: plainGraph_def list_all_iff)
  have key: "v \<in> set (Object_keys (buildNodeMap rawNodes))"
    using assms(2) by (simp add: keys_plain [OF assms(1)])
  have fill: "?lv v = (if lv0 v = None then Some 0 else lv0 v)"
    using pv key by (simp add: fillLevels_eq)
  have cl: "computeLevels rawNodes rawEdges = Inr ?lv" by (simp add: computeLevels_def lv0)
  have 1: "isRoot rawNodes rawEdges v \<longrightarrow> getEntry ?lv v = Own 0"
  proof
    assume "isRoot rawNodes rawEdges v"
    then have "bfsDistance rawNodes rawEdges v 0" by (simp add: bfsDistance_def)
    then have "lv0 v = Some 0" by (simp only: dist)
    then show "getEntry ?lv v = Own 0" by (simp add: fill)
  qed
  have 2: "\<forall>d. bfsDistance rawNodes rawEdges v d \<longrightarrow> getEntry ?lv v = Own d"
  proof (intro allI impI)
    fix d assume "bfsDistance rawNodes rawEdges v d"
    then have "lv0 v = Some d" by (simp only: dist)
    then show "getEntry ?lv v = Own d" by (simp add: fill)
  qed
  have 3: "(\<forall>n. \<not> reachedIn rawNodes rawEdges n v) \<longrightarrow> getEntry ?lv v = Own 0"
  proof
    assume none: "\<forall>n. \<not> reachedIn rawNodes rawEdges n v"
    have "lv0 v = None"
    proof (cases "lv0 v")
      case (Some d)
      then have "bfsDistance rawNodes rawEdges v d" by (simp only: dist)
      with none show ?thesis by (simp add: bfsDistance_def)
    qed simp
    then show "getEntry ?lv v = Own 0" by (simp add: fill)
  qed
  from cl 1 2 3 show ?thesis by blast
qed

subsection \<open>Branches that are never taken\<close>

text \<open>
  Every id in the queue has a level of its own, on every input: the roots are keys of
  \<open>nodeMap\<close>, which are never \<^verbatim>\<open>__proto__\<close>, and a child is queued together with its level.
  So \<^verbatim>\<open>levels[parentId]\<close> in the queue loop is always a number.
\<close>

lemma initLevels_queue:
  assumes "''__proto__'' \<notin> set roots"
  shows "\<forall>v\<in>set (snd (initLevels roots)). fst (initLevels roots) v \<noteq> None"
proof -
  have "(\<forall>v\<in>set q. lv v \<noteq> None) \<Longrightarrow> ''__proto__'' \<notin> set rs
        \<Longrightarrow> \<forall>v\<in>set (snd (fold (\<lambda>id (lv, queue). (setEntry id (0::nat) lv, queue @ [id])) rs (lv, q))).
              fst (fold (\<lambda>id (lv, queue). (setEntry id 0 lv, queue @ [id])) rs (lv, q)) v \<noteq> None"
    for rs q and lv :: levels
  proof (induction rs arbitrary: lv q)
    case Nil
    then show ?case by simp
  next
    case (Cons r rs)
    from Cons.prems(2) have r: "r \<noteq> ''__proto__''" and rs: "''__proto__'' \<notin> set rs" by auto
    have "\<forall>v\<in>set (q @ [r]). setEntry r 0 lv v \<noteq> None"
      using Cons.prems(1) r by (auto simp: setEntry_def)
    from Cons.IH [OF this rs] show ?case by simp
  qed
  from this [of "[]" Map.empty roots] assms show ?thesis by (simp add: initLevels_def)
qed

lemma visitChildren_queue_levels:
  assumes "\<forall>v\<in>set q. lv v \<noteq> None"
  shows "\<forall>v\<in>set (snd (visitChildren level cs (lv, q))). fst (visitChildren level cs (lv, q)) v \<noteq> None"
  using assms
proof (induction cs arbitrary: lv q)
  case Nil
  then show ?case by simp
next
  case (Cons c cs)
  show ?case
  proof (cases "getEntry lv c = Undefined")
    case True
    then have pl: "\<not> inheritedName c" by (simp add: getEntry_Undefined)
    have step: "visitChildren level (c # cs) (lv, q)
                  = visitChildren level cs (lv(c \<mapsto> Suc level), q @ [c])"
      using True by (simp add: setEntry_plain [OF pl])
    have "\<forall>v\<in>set (q @ [c]). (lv(c \<mapsto> Suc level)) v \<noteq> None" using Cons.prems by auto
    then show ?thesis unfolding step by (rule Cons.IH)
  next
    case False
    with Cons.IH [OF Cons.prems] show ?thesis by simp
  qed
qed

text \<open>After the loop that fills in level 0, \<^verbatim>\<open>levels[id]\<close> is not \<^verbatim>\<open>undefined\<close> for any node id.\<close>

lemma fillLevels_defined:
  assumes "v \<in> set ids"
  shows "getEntry (fillLevels ids lv) v \<noteq> Undefined"
  using assms by (auto simp: fillLevels_eq getEntry_def split: option.splits)

subsection \<open>Ids that name inherited members\<close>

definition memberRootNodes :: "RawNode list" where
  "memberRootNodes =
     [\<lparr> rn_id = ''constructor'', rn_type = ''TASK'', rn_wbs_code = Some ''1'', rn_data = None \<rparr>,
      \<lparr> rn_id = ''A'', rn_type = ''TASK'', rn_wbs_code = Some ''2'', rn_data = None \<rparr>]"

definition memberChildNodes :: "RawNode list" where
  "memberChildNodes =
     [\<lparr> rn_id = ''A'', rn_type = ''TASK'', rn_wbs_code = Some ''1'', rn_data = None \<rparr>,
      \<lparr> rn_id = ''toString'', rn_type = ''TASK'', rn_wbs_code = Some ''1.1'', rn_data = None \<rparr>]"

definition memberChildEdges :: "RawEdge list" where
  "memberChildEdges =
     [\<lparr> re_id = ''e1'', re_type = ''HIERARCHY'', re_source = ''A'', re_target = ''toString'',
        re_data = None \<rparr>]"

lemmas member_defs = inheritedName_def objectPrototypeNames_def getProp_def getEntry_def
  setProp_def setEntry_def

lemma memberRoot_keys: "Object_keys (buildNodeMap memberRootNodes) = [''constructor'', ''A'']"
  by (simp add: memberRootNodes_def buildNodeMap_def member_defs Object_keys_def arrayIndex_def
        isDigit_def)

lemma memberRoot_bfsLevels: "bfsLevels memberRootNodes [] = Inl TypeError"
  by (simp add: bfsLevels_def memberRoot_keys loadEdges_def initLevels_def childrenOf_def
        member_defs)

lemma memberChild_keys: "Object_keys (buildNodeMap memberChildNodes) = [''A'', ''toString'']"
  by (simp add: memberChildNodes_def buildNodeMap_def member_defs Object_keys_def arrayIndex_def
        isDigit_def)

lemma memberChild_loadEdges:
  "acc_thrown (loadEdges memberChildEdges) = None"
  "childSet (loadEdges memberChildEdges) = {''toString''}"
  "childrenByParent (loadEdges memberChildEdges) = [(''A'', [''toString''])]"
  by (simp_all add: memberChildEdges_def loadEdges_def addRawEdge_def member_defs)

lemma memberChild_bfsLevels: "bfsLevels memberChildNodes memberChildEdges = Inr [''A'' \<mapsto> 0]"
  by (simp add: bfsLevels_def memberChild_keys memberChild_loadEdges initLevels_def childrenOf_def
        member_defs)

text \<open>
  Claim C1 does not hold of the code when an id names a member of \<^verbatim>\<open>Object.prototype\<close>.
  With the two nodes \<^verbatim>\<open>constructor\<close> and \<^verbatim>\<open>A\<close> and no edge at all (an acyclic hierarchy in
  which both nodes are roots) no node is assigned a depth: the queue loop reads the
  inherited \<^verbatim>\<open>constructor\<close> as the children of the first root and throws.  With the nodes
  \<^verbatim>\<open>A\<close> and \<^verbatim>\<open>toString\<close> and the hierarchy edge from \<^verbatim>\<open>A\<close> to \<^verbatim>\<open>toString\<close>, the child is at
  distance 1 from the root, and its entry in \<open>levels\<close> is the inherited function, not a depth.
\<close>

theorem inherited_name_gets_no_depth:
  "map rn_id memberRootNodes = [''constructor'', ''A'']
   \<and> isRoot memberRootNodes [] ''constructor'' \<and> isRoot memberRootNodes [] ''A''
   \<and> computeLevels memberRootNodes [] = Inl TypeError
   \<and> map rn_id memberChildNodes = [''A'', ''toString'']
   \<and> hierarchyLinks memberChildEdges = [(''A'', ''toString'')]
   \<and> isRoot memberChildNodes memberChildEdges ''A''
   \<and> reachedIn memberChildNodes memberChildEdges 1 ''toString''
   \<and> \<not> reachedIn memberChildNodes memberChildEdges 0 ''toString''
   \<and> (case computeLevels memberChildNodes memberChildEdges of
        Inl e \<Rightarrow> False
      | Inr lv \<Rightarrow> getEntry lv ''A'' = Own 0 \<and> getEntry lv ''toString'' = Inherited)"
proof -
  have 1: "map rn_id memberRootNodes = [''constructor'', ''A'']"
    by (simp add: memberRootNodes_def)
  have 2: "isRoot memberRootNodes [] ''constructor''" "isRoot memberRootNodes [] ''A''"
    by (simp_all add: isRoot_def 1 hierarchyLinks_def)
  have 3: "computeLevels memberRootNodes [] = Inl TypeError"
    by (simp add: computeLevels_def memberRoot_bfsLevels)
  have 4: "map rn_id memberChildNodes = [''A'', ''toString'']"
    by (simp add: memberChildNodes_def)
  have 5: "hierarchyLinks memberChildEdges = [(''A'', ''toString'')]"
    by (simp add: hierarchyLinks_def memberChildEdges_def)
  have 6: "isRoot memberChildNodes memberChildEdges ''A''"
    by (simp add: isRoot_def 4 5)
  have 7: "reachedIn memberChildNodes memberChildEdges 1 ''toString''"
    "\<not> reachedIn memberChildNodes memberChildEdges 0 ''toString''"
    by (simp_all add: isRoot_def 4 5)
  have 8: "(case computeLevels memberChildNodes memberChildEdges of
        Inl e \<Rightarrow> False
      | Inr lv \<Rightarrow> getEntry lv ''A'' = Own 0 \<and> getEntry lv ''toString'' = Inherited)"
    by (simp add: computeLevels_def memberChild_bfsLevels memberChild_keys fillLevels_def
          member_defs)
  from 1 2 3 4 5 6 7 8 show ?thesis by (intro conjI)
qed

section \<open>Hierarchy layout engine: ordering and coordinates\<close>

subsection \<open>Numbers of the host language\<close>

text \<open>
  A number is NaN, an infinity or a finite value.  The finite values of the language are the
  doubles, which are among the reals; both zeros are the real 0, as \<^verbatim>\<open>!==\<close> and the sign
  tests below do not tell them apart.
\<close>

datatype jsnum = NaN | NegInf | Fin real | PosInf

fun isNaN :: "jsnum \<Rightarrow> bool" where
  "isNaN NaN = True"
| "isNaN _ = False"

text \<open>
  Subtraction \<^verbatim>\<open>a - b\<close>, without the rounding of the result: the rounded difference of two
  different numbers has the sign of the exact one, and a sort reads only the sign of what
  its comparator returns.
\<close>

fun js_minus :: "jsnum \<Rightarrow> jsnum \<Rightarrow> jsnum" where
  "js_minus NaN _ = NaN"
| "js_minus _ NaN = NaN"
| "js_minus (Fin a) (Fin b) = Fin (a - b)"
| "js_minus (Fin a) PosInf = NegInf"
| "js_minus (Fin a) NegInf = PosInf"
| "js_minus PosInf PosInf = NaN"
| "js_minus PosInf _ = PosInf"
| "js_minus NegInf NegInf = NaN"
| "js_minus NegInf _ = NegInf"

text \<open>The tests a sort makes on a comparator's result: \<^verbatim>\<open>v < 0\<close>, \<^verbatim>\<open>v > 0\<close>, and zero.\<close>

fun js_negative :: "jsnum \<Rightarrow> bool" where
  "js_negative NegInf = True"
| "js_negative (Fin r) = (r < 0)"
| "js_negative _ = False"

fun js_positive :: "jsnum \<Rightarrow> bool" where
  "js_positive PosInf = True"
| "js_positive (Fin r) = (0 < r)"
| "js_positive _ = False"

fun js_zero :: "jsnum \<Rightarrow> bool" where
  "js_zero (Fin r) = (r = 0)"
| "js_zero _ = False"

text \<open>The numeric order \<^verbatim>\<open>a < b\<close> (false when either side is NaN).\<close>

fun js_less :: "jsnum \<Rightarrow> jsnum \<Rightarrow> bool" where
  "js_less NaN _ = False"
| "js_less _ NaN = False"
| "js_less (Fin a) (Fin b) = (a < b)"
| "js_less NegInf NegInf = False"
| "js_less NegInf _ = True"
| "js_less _ NegInf = False"
| "js_less PosInf _ = False"
| "js_less _ PosInf = True"

subsection \<open>The host\<close>

text \<open>
  The built-in functions the layout calls are parameters of the model: \<^verbatim>\<open>Number\<close> applied
  to a string, \<^verbatim>\<open>String.prototype.localeCompare\<close> (its result depends on the collation of
  the host's locale), and \<^verbatim>\<open>Array.prototype.sort\<close> applied to an array of nodes and a
  comparator.
\<close>

record Host =
  hostNumber :: "string \<Rightarrow> jsnum"
  hostLocaleCompare :: "string \<Rightarrow> string \<Rightarrow> jsnum"
  hostSort :: "(WbsNode \<Rightarrow> WbsNode \<Rightarrow> jsnum) \<Rightarrow> WbsNode list \<Rightarrow> WbsNode list"

subsection \<open>The comparator of the per-level sort\<close>

definition compareIds :: "Host \<Rightarrow> string \<Rightarrow> string \<Rightarrow> jsnum" where
  "compareIds host a b =
     (let aNum = hostNumber host a; bNum = hostNumber host b
      in if \<not> isNaN aNum \<and> \<not> isNaN bNum \<and> aNum \<noteq> bNum then js_minus aNum bNum
         else hostLocaleCompare host a b)"

definition compareNodes :: "Host \<Rightarrow> WbsNode \<Rightarrow> WbsNode \<Rightarrow> jsnum" where
  "compareNodes host a b = compareIds host (node_id a) (node_id b)"

definition numericId :: "Host \<Rightarrow> string \<Rightarrow> bool" where
  "numericId host a = (\<not> isNaN (hostNumber host a))"

text \<open>\<open>a\<close> is sorted strictly before \<open>b\<close>; \<open>a\<close> is sorted strictly after \<open>b\<close>; neither.\<close>

definition before :: "Host \<Rightarrow> string \<Rightarrow> string \<Rightarrow> bool" where
  "before host a b = js_negative (compareIds host a b)"


definition tied :: "Host \<Rightarrow> string \<Rightarrow> string \<Rightarrow> bool" where
  "tied host a b = js_zero (compareIds host a b)"


subsection \<open>What the language requires of the host\<close>

text \<open>
  A consistent comparator for a set of values (ECMAScript, \<^verbatim>\<open>Array.prototype.sort\<close>): its
  results are never NaN, every value ties with itself, ties are symmetric and transitive,
  and so are "before" and "after".
\<close>

definition consistentOn :: "('a \<Rightarrow> 'a \<Rightarrow> jsnum) \<Rightarrow> 'a set \<Rightarrow> bool" where
  "consistentOn cmp S =
     ((\<forall>a\<in>S. \<forall>b\<in>S. \<not> isNaN (cmp a b))
    \<and> (\<forall>a\<in>S. js_zero (cmp a a))
    \<and> (\<forall>a\<in>S. \<forall>b\<in>S. js_zero (cmp a b) \<longrightarrow> js_zero (cmp b a))
    \<and> (\<forall>a\<in>S. \<forall>b\<in>S. \<forall>c\<in>S. js_zero (cmp a b) \<and> js_zero (cmp b c) \<longrightarrow> js_zero (cmp a c))
    \<and> (\<forall>a\<in>S. \<forall>b\<in>S. \<forall>c\<in>S.
          js_negative (cmp a b) \<and> js_negative (cmp b c) \<longrightarrow> js_negative (cmp a c))
    \<and> (\<forall>a\<in>S. \<forall>b\<in>S. \<forall>c\<in>S.
          js_positive (cmp a b) \<and> js_positive (cmp b c) \<longrightarrow> js_positive (cmp a c)))"

text \<open>
  The stable sort: each element is inserted, from the right, in front of the first element
  it is not after.
\<close>

fun insertBy :: "('a \<Rightarrow> 'a \<Rightarrow> jsnum) \<Rightarrow> 'a \<Rightarrow> 'a list \<Rightarrow> 'a list" where
  "insertBy cmp x [] = [x]"
| "insertBy cmp x (y # ys) =
     (if js_positive (cmp x y) then y # insertBy cmp x ys else x # y # ys)"

definition stableSort :: "('a \<Rightarrow> 'a \<Rightarrow> jsnum) \<Rightarrow> 'a list \<Rightarrow> 'a list" where
  "stableSort cmp xs = foldr (insertBy cmp) xs []"

text \<open>
  The contract of the host, as ECMAScript states it: \<^verbatim>\<open>localeCompare\<close> is a consistent
  comparator for the set of all strings; \<^verbatim>\<open>sort\<close> rearranges the elements of the array; and
  for a comparator that is consistent for the elements, \<^verbatim>\<open>sort\<close> is stable and puts them in
  ascending order, which makes its result the one of the stable sort above.  For any other
  comparator the order is left to the implementation.
\<close>

definition hostContract :: "Host \<Rightarrow> bool" where
  "hostContract host =
     (consistentOn (hostLocaleCompare host) UNIV
      \<and> (\<forall>cmp xs. set (hostSort host cmp xs) = set xs
                   \<and> length (hostSort host cmp xs) = length xs)
      \<and> (\<forall>cmp xs. consistentOn cmp (set xs) \<longrightarrow> hostSort host cmp xs = stableSort cmp xs))"

subsection \<open>Consistent comparators\<close>


lemma sign_exclusive:
  "\<not> (js_negative v \<and> js_zero v)" "\<not> (js_negative v \<and> js_positive v)"
  "\<not> (js_zero v \<and> js_positive v)"
  by (cases v; auto)+



lemma consistent_refl: "consistentOn cmp S \<Longrightarrow> a \<in> S \<Longrightarrow> js_zero (cmp a a)"
  unfolding consistentOn_def by (elim conjE) (erule (1) bspec)

lemma consistent_sym:
  assumes "consistentOn cmp S" and "a \<in> S" "b \<in> S" and "js_zero (cmp a b)"
  shows "js_zero (cmp b a)"
proof -
  from assms(1) have "\<forall>a\<in>S. \<forall>b\<in>S. js_zero (cmp a b) \<longrightarrow> js_zero (cmp b a)"
    unfolding consistentOn_def by (elim conjE)
  with assms(2-) show ?thesis by blast
qed

lemma consistent_zero_trans:
  assumes "consistentOn cmp S" and "a \<in> S" "b \<in> S" "c \<in> S"
    and "js_zero (cmp a b)" "js_zero (cmp b c)"
  shows "js_zero (cmp a c)"
proof -
  from assms(1)
  have "\<forall>a\<in>S. \<forall>b\<in>S. \<forall>c\<in>S. js_zero (cmp a b) \<and> js_zero (cmp b c) \<longrightarrow> js_zero (cmp a c)"
    unfolding consistentOn_def by (elim conjE)
  with assms(2-) show ?thesis by blast
qed









subsection \<open>Properties of the comparator\<close>






lemma js_less_asym: "js_less x y \<Longrightarrow> \<not> js_less y x"
  by (cases x; cases y) auto

lemma js_less_total: "\<not> isNaN x \<Longrightarrow> \<not> isNaN y \<Longrightarrow> x \<noteq> y \<Longrightarrow> js_less x y \<or> js_less y x"
  by (cases x; cases y) auto



lemma compareIds_lexical:
  "\<not> (numericId host a \<and> numericId host b \<and> hostNumber host a \<noteq> hostNumber host b)
   \<Longrightarrow> compareIds host a b = hostLocaleCompare host a b"
  by (auto simp: compareIds_def Let_def numericId_def)




lemma before_lexical:
  "\<not> (numericId host a \<and> numericId host b \<and> hostNumber host a \<noteq> hostNumber host b)
   \<Longrightarrow> before host a b \<longleftrightarrow> js_negative (hostLocaleCompare host a b)"
  using compareIds_lexical [of host a b] by (simp add: before_def)


lemma tied_lexical:
  "\<not> (numericId host a \<and> numericId host b \<and> hostNumber host a \<noteq> hostNumber host b)
   \<Longrightarrow> tied host a b \<longleftrightarrow> js_zero (hostLocaleCompare host a b)"
  using compareIds_lexical [of host a b] by (simp add: tied_def)

lemma hostContract_collation: "hostContract host \<Longrightarrow> consistentOn (hostLocaleCompare host) UNIV"
  unfolding hostContract_def by (elim conjE)


lemma hostContract_length: "hostContract host \<Longrightarrow> length (hostSort host cmp xs) = length xs"
  unfolding hostContract_def by (elim conjE) simp





lemma before_irrefl:
  assumes "hostContract host"
  shows "\<not> before host a a"
proof -
  have "js_zero (hostLocaleCompare host a a)"
    by (rule consistent_refl [OF hostContract_collation [OF assms]]) simp
  then have "\<not> js_negative (hostLocaleCompare host a a)" using sign_exclusive(1) by blast
  then show ?thesis by (simp add: before_lexical)
qed









subsection \<open>Grouping and placing\<close>

text \<open>
  The property key under which the grouping loop files a node is the string of
  \<^verbatim>\<open>levels[id]\<close>: the decimal numeral of a level, the source text of an inherited function
  (one text for each member, here named by the member), or \<^verbatim>\<open>undefined\<close>.  None of these
  strings names a member of \<^verbatim>\<open>Object.prototype\<close>, so \<open>grouped\<close> is read and written at its
  own properties only.
\<close>

datatype groupKey = LevelKey nat | MemberKey string | UndefinedKey

definition levelKey :: "levels \<Rightarrow> string \<Rightarrow> groupKey" where
  "levelKey lv nid =
     (case getEntry lv nid of
        Own level \<Rightarrow> LevelKey level
      | Inherited \<Rightarrow> MemberKey nid
      | Undefined \<Rightarrow> UndefinedKey)"

text \<open>\<^verbatim>\<open>grouped[level]\<close>, with the empty array for \<^verbatim>\<open>undefined\<close>.\<close>

definition lookupGroup :: "(groupKey \<times> WbsNode list) list \<Rightarrow> groupKey \<Rightarrow> WbsNode list" where
  "lookupGroup grouped k = (case map_of grouped k of None \<Rightarrow> [] | Some ns \<Rightarrow> ns)"

text \<open>
  One round of the grouping loop.  The ids are the own keys of \<open>nodeMap\<close>, so every id has a
  node of its own there and the last case is never taken.
\<close>

definition groupStep ::
  "levels \<Rightarrow> (string \<times> WbsNode) list \<Rightarrow> string \<Rightarrow> (groupKey \<times> WbsNode list) list
     \<Rightarrow> (groupKey \<times> WbsNode list) list" where
  "groupStep lv nodeMap nid grouped =
     (case map_of nodeMap nid of
        Some n \<Rightarrow>
          AList.update (levelKey lv nid) (lookupGroup grouped (levelKey lv nid) @ [n]) grouped
      | None \<Rightarrow> grouped)"

definition groupByLevel ::
  "levels \<Rightarrow> (string \<times> WbsNode) list \<Rightarrow> string list \<Rightarrow> (groupKey \<times> WbsNode list) list" where
  "groupByLevel lv nodeMap allNodeIds = fold (groupStep lv nodeMap) allNodeIds []"

text \<open>The nodes of one level, sorted by the host and given their coordinates.\<close>

definition placeLevel :: "Host \<Rightarrow> nat \<Rightarrow> WbsNode list \<Rightarrow> WbsNode list" where
  "placeLevel host level nodesAtLevel =
     (let sorted = hostSort host (compareNodes host) nodesAtLevel
      in map (\<lambda>(n, index). n\<lparr> position := \<lparr> pos_x = real level * 260,
                                              pos_y = real index * 120 \<rparr> \<rparr>)
           (zip sorted [0 ..< length sorted]))"

fun isLevelKey :: "groupKey \<Rightarrow> bool" where
  "isLevelKey (LevelKey level) = True"
| "isLevelKey _ = False"

fun levelOfKey :: "groupKey \<Rightarrow> nat" where
  "levelOfKey (LevelKey level) = level"
| "levelOfKey _ = 0"

text \<open>
  The base nodes.  The keys of \<open>grouped\<close> are converted with \<^verbatim>\<open>Number\<close> and sorted by
  difference: level keys give their levels, which are distinct, so the result is the
  ascending list of the levels.  Any other key gives NaN, for which \<^verbatim>\<open>grouped[level]\<close> is
  \<^verbatim>\<open>undefined\<close>, and the round of \<^verbatim>\<open>forEach\<close> for it throws at \<^verbatim>\<open>nodesAtLevel.sort\<close>,
  wherever the sort has put it.
\<close>

definition layoutNodes :: "Host \<Rightarrow> RawNode list \<Rightarrow> RawEdge list \<Rightarrow> error + WbsNode list" where
  "layoutNodes host rawNodes rawEdges =
     (case computeLevels rawNodes rawEdges of
        Inl e \<Rightarrow> Inl e
      | Inr lv \<Rightarrow>
          let nodeMap = buildNodeMap rawNodes;
              allNodeIds = Object_keys nodeMap;
              grouped = groupByLevel lv nodeMap allNodeIds;
              keys = map fst grouped
          in if list_all isLevelKey keys
             then Inr (concat (map (\<lambda>level. placeLevel host level
                                                (lookupGroup grouped (LevelKey level)))
                                 (sort (map levelOfKey keys))))
             else Inl TypeError)"

text \<open>The result of the first \<^verbatim>\<open>useMemo\<close>: base nodes, hierarchy edges, dependency edges.\<close>

definition baseLayout ::
  "Host \<Rightarrow> RawNode list \<Rightarrow> RawEdge list \<Rightarrow> error + WbsNode list \<times> WbsEdge list \<times> WbsEdge list" where
  "baseLayout host rawNodes rawEdges =
     (case layoutNodes host rawNodes rawEdges of
        Inl e \<Rightarrow> Inl e
      | Inr baseNodes \<Rightarrow>
          Inr (baseNodes, acc_hierarchy (loadEdges rawEdges), acc_dependency (loadEdges rawEdges)))"

subsection \<open>The stable sort\<close>

lemma set_insertBy [simp]: "set (insertBy cmp x ys) = insert x (set ys)"
  by (induction ys) auto

lemma stableSort_Nil [simp]: "stableSort cmp [] = []"
  by (simp add: stableSort_def)

lemma stableSort_Cons [simp]: "stableSort cmp (x # xs) = insertBy cmp x (stableSort cmp xs)"
  by (simp add: stableSort_def)

lemma set_stableSort [simp]: "set (stableSort cmp xs) = set xs"
  by (induction xs) simp_all

lemma length_insertBy [simp]: "length (insertBy cmp x ys) = Suc (length ys)"
  by (induction ys) auto

lemma length_stableSort [simp]: "length (stableSort cmp xs) = length xs"
  by (induction xs) simp_all





text \<open>Elements that tie keep their order (the sort is stable).\<close>

lemma filter_insertBy_other:
  "\<not> P x \<Longrightarrow> filter P (insertBy cmp x ys) = filter P ys"
  by (induction ys) auto

lemma filter_insertBy_tied:
  assumes "P x" and "\<And>y. y \<in> set ys \<Longrightarrow> P y \<Longrightarrow> \<not> js_positive (cmp x y)"
  shows "filter P (insertBy cmp x ys) = x # filter P ys"
  using assms by (induction ys) auto

lemma stable_stableSort:
  assumes c: "consistentOn cmp S" and sub: "set xs \<subseteq> S" and e: "e \<in> S"
  shows "filter (\<lambda>y. js_zero (cmp e y)) (stableSort cmp xs) = filter (\<lambda>y. js_zero (cmp e y)) xs"
  using sub
proof (induction xs)
  case Nil
  show ?case by simp
next
  case (Cons x xs)
  then have xS: "x \<in> S" and xsS: "set xs \<subseteq> S" by auto
  have ih: "filter (\<lambda>y. js_zero (cmp e y)) (stableSort cmp xs) = filter (\<lambda>y. js_zero (cmp e y)) xs"
    using xsS by (rule Cons.IH)
  show ?case
  proof (cases "js_zero (cmp e x)")
    case True
    have "\<not> js_positive (cmp x y)" if "y \<in> set (stableSort cmp xs)" "js_zero (cmp e y)" for y
    proof -
      from that(1) xsS have yS: "y \<in> S" by auto
      from consistent_sym [OF c e xS True] have "js_zero (cmp x e)" .
      from consistent_zero_trans [OF c xS e yS this that(2)] have "js_zero (cmp x y)" .
      then show ?thesis using sign_exclusive(3) by blast
    qed
    with True have "filter (\<lambda>y. js_zero (cmp e y)) (insertBy cmp x (stableSort cmp xs))
                      = x # filter (\<lambda>y. js_zero (cmp e y)) (stableSort cmp xs)"
      by (intro filter_insertBy_tied) auto
    with True ih show ?thesis by simp
  next
    case False
    then show ?thesis by (simp add: filter_insertBy_other ih)
  qed
qed

subsection \<open>What the grouping loop builds\<close>












subsection \<open>The node map and its keys\<close>




lemma distinct_fold_setProp:
  "distinct (map fst m0)
   \<Longrightarrow> distinct (map fst (fold (\<lambda>r m. setProp (rn_id r) (mkNode r) m) rs m0))"
  by (induction rs arbitrary: m0) (simp_all add: setProp_def distinct_update)

lemma distinct_buildNodeMap: "distinct (map fst (buildNodeMap ns))"
  by (simp add: buildNodeMap_def distinct_fold_setProp)

lemma distinct_Object_keys:
  assumes "distinct (map fst obj)"
  shows "distinct (Object_keys obj)"
proof -
  let ?ks = "map fst obj"
  let ?pairs = "concat (map (\<lambda>k. case arrayIndex k of None \<Rightarrow> [] | Some i \<Rightarrow> [(i, k)]) ?ks)"
  have snd_pairs: "map snd ?pairs = filter (\<lambda>k. arrayIndex k \<noteq> None) ?ks"
    by (induction obj) (auto split: option.splits)
  have "distinct (map snd ?pairs)" using assms by (simp only: snd_pairs distinct_filter)
  then have "distinct (map snd (sort_key fst ?pairs))"
    by (simp add: distinct_map)
  moreover have "set (map snd (sort_key fst ?pairs)) = set (map snd ?pairs)"
    by simp
  then have "set (map snd (sort_key fst ?pairs)) = {k \<in> set ?ks. arrayIndex k \<noteq> None}"
    by (simp only: snd_pairs set_filter)
  ultimately show ?thesis
    using assms unfolding Object_keys_def Let_def by (simp only: distinct_append) auto
qed

subsection \<open>The order of the base nodes\<close>


text \<open>The ids of the nodes at depth \<open>l\<close>, in the order of the keys of \<open>nodeMap\<close>.\<close>

definition levelIds :: "levels \<Rightarrow> RawNode list \<Rightarrow> nat \<Rightarrow> string list" where
  "levelIds lv rawNodes l = filter (\<lambda>i. lv i = Some l) (Object_keys (buildNodeMap rawNodes))"



lemma distinct_levelIds: "distinct (levelIds lv ns l)"
  by (simp add: levelIds_def distinct_Object_keys [OF distinct_buildNodeMap])










subsection \<open>An instance of the host\<close>











subsection \<open>A layout computed on the instance\<close>

definition taskNode :: "string \<Rightarrow> RawNode" where
  "taskNode i = \<lparr> rn_id = i, rn_type = ''TASK'', rn_wbs_code = None, rn_data = None \<rparr>"

definition hierarchyEdge :: "string \<Rightarrow> string \<Rightarrow> string \<Rightarrow> RawEdge" where
  "hierarchyEdge i s t =
     \<lparr> re_id = i, re_type = ''HIERARCHY'', re_source = s, re_target = t, re_data = None \<rparr>"

definition orderRawNodes :: "RawNode list" where
  "orderRawNodes = map taskNode [''R'', ''b'', ''a'', ''10'', ''9'']"

definition orderRawEdges :: "RawEdge list" where
  "orderRawEdges =
     [hierarchyEdge ''e1'' ''R'' ''b'', hierarchyEdge ''e2'' ''R'' ''a'',
      hierarchyEdge ''e3'' ''b'' ''10'', hierarchyEdge ''e4'' ''b'' ''9'']"

definition placed :: "string \<Rightarrow> real \<Rightarrow> real \<Rightarrow> WbsNode" where
  "placed i x y =
     \<lparr> node_id = i, position = \<lparr> pos_x = x, pos_y = y \<rparr>,
       node_data = [(''label'', JStr ''TASK '')], node_type = ''default'' \<rparr>"

definition orderLevels :: levels where
  "orderLevels = [''R'' \<mapsto> 0, ''b'' \<mapsto> 1, ''a'' \<mapsto> 1, ''10'' \<mapsto> 2, ''9'' \<mapsto> 2]"

lemma order_nodeMap:
  "buildNodeMap orderRawNodes =
     [(''R'', placed ''R'' 0 0), (''b'', placed ''b'' 0 0), (''a'', placed ''a'' 0 0),
      (''10'', placed ''10'' 0 0), (''9'', placed ''9'' 0 0)]"
  by (simp add: buildNodeMap_def orderRawNodes_def taskNode_def mkNode_def nodeLabel_def
        dataField_def spread_def setProp_def placed_def)

lemma order_keys:
  "Object_keys (buildNodeMap orderRawNodes) = [''9'', ''10'', ''R'', ''b'', ''a'']"
  by (simp add: order_nodeMap Object_keys_def arrayIndex_def isDigit_def digitsValue_def
        digitOf_def)

lemma order_loadEdges:
  "acc_thrown (loadEdges orderRawEdges) = None"
  "childSet (loadEdges orderRawEdges) = {''b'', ''a'', ''10'', ''9''}"
  "childrenByParent (loadEdges orderRawEdges) = [(''R'', [''b'', ''a'']), (''b'', [''10'', ''9''])]"
  by (auto simp: orderRawEdges_def hierarchyEdge_def loadEdges_def addRawEdge_def member_defs)

lemma order_levels: "computeLevels orderRawNodes orderRawEdges = Inr orderLevels"
  by (simp add: computeLevels_def bfsLevels_def order_keys order_loadEdges initLevels_def
        childrenOf_def fillLevels_def member_defs orderLevels_def numeral_2_eq_2)




lemma order_plain: "plainGraph orderRawNodes orderRawEdges"
  by (simp add: plainGraph_def orderRawNodes_def orderRawEdges_def taskNode_def hierarchyEdge_def
        inheritedName_def objectPrototypeNames_def)

lemma order_distance:
  "isRoot orderRawNodes orderRawEdges ''R''" "bfsDistance orderRawNodes orderRawEdges ''9'' 2"
proof -
  have ids: "map rn_id orderRawNodes = [''R'', ''b'', ''a'', ''10'', ''9'']"
    by (simp add: orderRawNodes_def taskNode_def)
  have links: "hierarchyLinks orderRawEdges
                 = [(''R'', ''b''), (''R'', ''a''), (''b'', ''10''), (''b'', ''9'')]"
    by (simp add: hierarchyLinks_def orderRawEdges_def hierarchyEdge_def)
  show "isRoot orderRawNodes orderRawEdges ''R''" by (simp add: isRoot_def ids links)
  have r: "reachedIn orderRawNodes orderRawEdges 2 ''9''"
    by (simp add: numeral_2_eq_2 isRoot_def ids links)
  have "\<not> reachedIn orderRawNodes orderRawEdges m ''9''" if "m < 2" for m
  proof -
    from that consider "m = 0" | "m = Suc 0" by linarith
    then show ?thesis by cases (simp_all add: isRoot_def ids links)
  qed
  with r show "bfsDistance orderRawNodes orderRawEdges ''9'' 2" by (simp add: bfsDistance_def)
qed

text \<open>The levels of the example are the distances of its nodes from the root.\<close>

lemma plain_depth_example:
  "getEntry orderLevels ''R'' = Own 0 \<and> getEntry orderLevels ''9'' = Own 2"
proof -
  have "''R'' \<in> set (map rn_id orderRawNodes)" "''9'' \<in> set (map rn_id orderRawNodes)"
    by (simp_all add: orderRawNodes_def taskNode_def)
  from plain_depth_is_bfs_distance [OF order_plain this(1)]
       plain_depth_is_bfs_distance [OF order_plain this(2)] order_distance
  show ?thesis by (auto simp: order_levels)
qed

subsection \<open>The order of siblings\<close>





section \<open>Focus/view selector\<close>

type_synonym addr = nat
type_synonym store = "WbsNode list"

text \<open>Truthiness of an optional string: \<^verbatim>\<open>undefined\<close>, \<^verbatim>\<open>null\<close> and the empty string are falsy.\<close>

fun truthy :: "string option \<Rightarrow> bool" where
  "truthy None = False"
| "truthy (Some s) = (s \<noteq> [])"

definition alloc :: "store \<Rightarrow> WbsNode list \<Rightarrow> store \<times> addr list" where
  "alloc h vs = (h @ vs, [length h ..< length h + length vs])"

definition incidentEdges :: "string \<Rightarrow> WbsEdge list \<Rightarrow> WbsEdge list \<Rightarrow> WbsEdge list" where
  "incidentEdges F hs ds = filter (\<lambda>e. source e = F \<or> target e = F) (hs @ ds)"

definition addNeighbor :: "string \<Rightarrow> WbsEdge \<Rightarrow> string set \<Rightarrow> string set" where
  "addNeighbor F e S =
     (let S1 = (if source e = F then insert (target e) S else S)
      in if target e = F then insert (source e) S1 else S1)"

definition neighborIds :: "string \<Rightarrow> WbsEdge list \<Rightarrow> string set" where
  "neighborIds F inc = fold (addNeighbor F) inc {}"

definition starPosition :: "nat \<Rightarrow> nat \<Rightarrow> Position" where
  "starPosition index n =
     (let angle = (2 * pi * real index) / real n
      in \<lparr> pos_x = 0 + 220 * cos angle, pos_y = 0 + 220 * sin angle \<rparr>)"

definition neighborNodes :: "WbsNode list \<Rightarrow> WbsNode list" where
  "neighborNodes neighbors =
     (if length neighbors = 0 then []
      else map (\<lambda>(n, index). n\<lparr> position := starPosition index (length neighbors) \<rparr>)
             (zip neighbors [0 ..< length neighbors]))"

definition selectView ::
  "store \<Rightarrow> ViewMode \<Rightarrow> string option \<Rightarrow> addr list \<Rightarrow> WbsEdge list \<Rightarrow> WbsEdge list
     \<Rightarrow> store \<times> addr list \<times> WbsEdge list" where
  "selectView h mode focus base hs ds =
     (if mode = GLOBAL \<or> \<not> truthy focus then (h, base, hs)
      else case focus of
        None \<Rightarrow> (h, base, hs)
      | Some F \<Rightarrow>
         (case find (\<lambda>a. node_id (h ! a) = F) base of
            None \<Rightarrow> (h, base, hs)
          | Some center \<Rightarrow>
             (let inc = incidentEdges F hs ds;
                  ids = neighborIds F inc;
                  neighbors = filter (\<lambda>a. node_id (h ! a) \<in> ids) base;
                  centerNode = (h ! center)\<lparr> position := \<lparr> pos_x = 0, pos_y = 0 \<rparr> \<rparr>;
                  (h', nodes) = alloc h (centerNode # neighborNodes (map ((!) h) neighbors))
              in (h', nodes, inc))))"

definition otherEndpoints :: "string \<Rightarrow> WbsEdge list \<Rightarrow> string set" where
  "otherEndpoints F es =
     {target e | e. e \<in> set es \<and> source e = F} \<union> {source e | e. e \<in> set es \<and> target e = F}"

lemma fold_addNeighbor:
  "fold (addNeighbor F) es S = S \<union> otherEndpoints F es"
  by (induction es arbitrary: S) (auto simp: addNeighbor_def otherEndpoints_def Let_def)

lemma neighborIds_eq: "neighborIds F (incidentEdges F hs ds) = otherEndpoints F (hs @ ds)"
  by (auto simp: neighborIds_def fold_addNeighbor incidentEdges_def otherEndpoints_def)

lemma find_node_id:
  "find (\<lambda>a. node_id (h ! a) = F) base = Some c \<Longrightarrow> node_id (h ! c) = F \<and> c \<in> set base"
  by (induction base) (auto split: if_splits)

lemma find_exists:
  "F \<in> (\<lambda>a. node_id (h ! a)) ` set base \<Longrightarrow> \<exists>c. find (\<lambda>a. node_id (h ! a) = F) base = Some c"
  by (cases "find (\<lambda>a. node_id (h ! a) = F) base") (auto simp: find_None_iff)

lemma length_neighborNodes [simp]: "length (neighborNodes ns) = length ns"
  by (simp add: neighborNodes_def)

lemma nth_neighborNodes:
  "i < length ns \<Longrightarrow> neighborNodes ns ! i = (ns ! i)\<lparr> position := starPosition i (length ns) \<rparr>"
  by (auto simp: neighborNodes_def)

lemma map_id_neighborNodes [simp]: "map node_id (neighborNodes ns) = map node_id ns"
  by (rule nth_equalityI) (simp_all add: nth_neighborNodes)

text \<open>The LOCAL branch, unfolded once and for all.\<close>

lemma selectView_local:
  assumes "F \<noteq> []" and "find (\<lambda>a. node_id (h ! a) = F) base = Some c"
  shows "selectView h LOCAL (Some F) base hs ds =
           (h @ (h ! c)\<lparr> position := \<lparr> pos_x = 0, pos_y = 0 \<rparr> \<rparr>
                # neighborNodes (map ((!) h)
                    (filter (\<lambda>a. node_id (h ! a) \<in> otherEndpoints F (hs @ ds)) base)),
            [length h ..< length h +
               Suc (length (filter (\<lambda>a. node_id (h ! a) \<in> otherEndpoints F (hs @ ds)) base))],
            filter (\<lambda>e. source e = F \<or> target e = F) (hs @ ds))"
  using assms
  by (simp add: selectView_def Let_def alloc_def neighborIds_eq)
     (simp add: incidentEdges_def)

lemma selectView_global:
  "mode = GLOBAL \<or> \<not> truthy focus \<or> (\<exists>F. focus = Some F \<and> F \<notin> (\<lambda>a. node_id (h ! a)) ` set base)
   \<Longrightarrow> selectView h mode focus base hs ds = (h, base, hs)"
  by (auto simp: selectView_def find_None_iff split: option.splits dest!: find_node_id)

lemma map_nth_alloc: "map ((!) (h @ vs)) [length h ..< length h + length vs] = vs"
  by (rule nth_equalityI) (simp_all add: nth_append)

lemma nth_alloc: "i < length vs \<Longrightarrow> (h @ vs) ! ([length h ..< length h + length vs] ! i) = vs ! i"
  by (simp add: nth_append)

lemma starPosition_radius:
  "sqrt ((pos_x (starPosition i k))\<^sup>2 + (pos_y (starPosition i k))\<^sup>2) = 220"
proof -
  have "(220 * cos t)\<^sup>2 + (220 * sin t)\<^sup>2 = (220::real)\<^sup>2" for t :: real
  proof -
    have "(220 * cos t)\<^sup>2 + (220 * sin t)\<^sup>2 = (220::real)\<^sup>2 * ((cos t)\<^sup>2 + (sin t)\<^sup>2)"
      by (simp only: power_mult_distrib distrib_left)
    then show ?thesis by (simp only: sin_cos_squared_add2 mult_1_right)
  qed
  then have "sqrt ((pos_x (starPosition i k))\<^sup>2 + (pos_y (starPosition i k))\<^sup>2)
               = sqrt ((220::real)\<^sup>2)"
    by (simp add: starPosition_def Let_def)
  then show ?thesis by simp
qed

definition exampleStore :: store where
  "exampleStore =
     [\<lparr> node_id = ''A'', position = \<lparr> pos_x = 0, pos_y = 0 \<rparr>,
        node_data = [(''label'', JStr ''TASK 1'')], node_type = ''default'' \<rparr>,
      \<lparr> node_id = ''B'', position = \<lparr> pos_x = 260, pos_y = 0 \<rparr>,
        node_data = [(''label'', JStr ''TASK 1.1'')], node_type = ''default'' \<rparr>,
      \<lparr> node_id = ''C'', position = \<lparr> pos_x = 260, pos_y = 120 \<rparr>,
        node_data = [(''label'', JStr ''DOC 1.2'')], node_type = ''default'' \<rparr>]"

definition exampleHierarchy :: "WbsEdge list" where
  "exampleHierarchy =
     [\<lparr> edge_id = ''e1'', source = ''A'', target = ''B'', edge_type = ''default'',
        label = ''HIERARCHY'', edge_data = [(''wbsType'', JStr ''HIERARCHY'')] \<rparr>,
      \<lparr> edge_id = ''e2'', source = ''A'', target = ''C'', edge_type = ''default'',
        label = ''HIERARCHY'', edge_data = [(''wbsType'', JStr ''HIERARCHY'')] \<rparr>]"

definition exampleDependency :: "WbsEdge list" where
  "exampleDependency =
     [\<lparr> edge_id = ''e3'', source = ''C'', target = ''B'', edge_type = ''default'',
        label = ''DOC_DEPENDS_ON'', edge_data = [(''wbsType'', JStr ''DOC_DEPENDS_ON'')] \<rparr>]"

text \<open>
  The worked example: nodes A, B, C with hierarchy edges A\<rightarrow>B and A\<rightarrow>C.  Focusing B shows
  B at the origin and A at angle 0 on the circle, with the one edge A\<rightarrow>B.
\<close>

lemma example_local_view:
  "selectView exampleStore LOCAL (Some ''B'') [0, 1, 2] exampleHierarchy []
     = (exampleStore
          @ [\<lparr> node_id = ''B'', position = \<lparr> pos_x = 0, pos_y = 0 \<rparr>,
               node_data = [(''label'', JStr ''TASK 1.1'')], node_type = ''default'' \<rparr>,
             \<lparr> node_id = ''A'', position = \<lparr> pos_x = 220, pos_y = 0 \<rparr>,
               node_data = [(''label'', JStr ''TASK 1'')], node_type = ''default'' \<rparr>],
        [3, 4],
        [\<lparr> edge_id = ''e1'', source = ''A'', target = ''B'', edge_type = ''default'',
           label = ''HIERARCHY'', edge_data = [(''wbsType'', JStr ''HIERARCHY'')] \<rparr>])"
  by (simp add: selectView_def exampleStore_def exampleHierarchy_def incidentEdges_def
        neighborIds_def addNeighbor_def neighborNodes_def starPosition_def alloc_def Let_def
        upt_conv_Cons)

lemma example_focus_valid:
  "''B'' \<noteq> [] \<and> ''B'' \<in> (\<lambda>a. node_id (exampleStore ! a)) ` set [0, 1, 2]
   \<and> (\<forall>a\<in>set [0, 1, 2]. a < length exampleStore)"
  by (simp add: exampleStore_def)

text \<open>
  Claim C2, as amended.  For every store and base node sequence and every non-empty focus
  id \<open>F\<close> that occurs in the base node sequence, the LOCAL view's nodes are \<open>F\<close> followed by
  the base nodes whose id is the other endpoint of a hierarchy or dependency edge incident
  to \<open>F\<close> (in base order), its edges are exactly the edges whose source or target is \<open>F\<close>,
  and their number is the number of positions of incident edges.
\<close>

theorem local_view_contents:
  assumes "F \<noteq> []" and "F \<in> (\<lambda>a. node_id (h ! a)) ` set base"
  shows "case selectView h LOCAL (Some F) base hs ds of (h', nodes, edges) \<Rightarrow>
           map (\<lambda>a. node_id (h' ! a)) nodes =
             F # map (\<lambda>a. node_id (h ! a))
                   (filter (\<lambda>a. node_id (h ! a) \<in> otherEndpoints F (hs @ ds)) base)
         \<and> edges = filter (\<lambda>e. source e = F \<or> target e = F) (hs @ ds)
         \<and> length edges =
             card {i. i < length (hs @ ds)
                      \<and> (source ((hs @ ds) ! i) = F \<or> target ((hs @ ds) ! i) = F)}"
proof -
  from find_exists [OF assms(2)] obtain c
    where c: "find (\<lambda>a. node_id (h ! a) = F) base = Some c" by blast
  let ?nbrs = "filter (\<lambda>a. node_id (h ! a) \<in> otherEndpoints F (hs @ ds)) base"
  let ?vs = "(h ! c)\<lparr> position := \<lparr> pos_x = 0, pos_y = 0 \<rparr> \<rparr> # neighborNodes (map ((!) h) ?nbrs)"
  have len: "length h + Suc (length ?nbrs) = length h + length ?vs" by simp
  have "map (\<lambda>a. node_id ((h @ ?vs) ! a)) [length h ..< length h + length ?vs]
          = map node_id (map ((!) (h @ ?vs)) [length h ..< length h + length ?vs])"
    by (simp only: map_map comp_def)
  also have "\<dots> = map node_id ?vs" by (simp only: map_nth_alloc)
  also have "\<dots> = F # map (\<lambda>a. node_id (h ! a)) ?nbrs"
    using find_node_id [OF c] by (simp add: comp_def)
  finally have ids: "map (\<lambda>a. node_id ((h @ ?vs) ! a)) [length h ..< length h + length ?vs]
          = F # map (\<lambda>a. node_id (h ! a)) ?nbrs" .
  have cnt: "length (filter (\<lambda>e. source e = F \<or> target e = F) (hs @ ds)) =
             card {i. i < length (hs @ ds)
                      \<and> (source ((hs @ ds) ! i) = F \<or> target ((hs @ ds) ! i) = F)}"
    by (rule length_filter_conv_card)
  show ?thesis
    unfolding selectView_local [OF assms(1) c] len prod.case
    using ids cnt by (intro conjI) (rule refl | assumption)+
qed

theorem local_view_contents_witness:
  "''B'' \<noteq> [] \<and> ''B'' \<in> (\<lambda>a. node_id (exampleStore ! a)) ` set [0, 1, 2]
   \<and> (case selectView exampleStore LOCAL (Some ''B'') [0, 1, 2] exampleHierarchy exampleDependency
        of (h', nodes, edges) \<Rightarrow>
           map (\<lambda>a. node_id (h' ! a)) nodes =
             ''B'' # map (\<lambda>a. node_id (exampleStore ! a))
                   (filter (\<lambda>a. node_id (exampleStore ! a)
                       \<in> otherEndpoints ''B'' (exampleHierarchy @ exampleDependency)) [0, 1, 2])
         \<and> edges = filter (\<lambda>e. source e = ''B'' \<or> target e = ''B'')
                      (exampleHierarchy @ exampleDependency)
         \<and> length edges =
             card {i. i < length (exampleHierarchy @ exampleDependency)
                      \<and> (source ((exampleHierarchy @ exampleDependency) ! i) = ''B''
                         \<or> target ((exampleHierarchy @ exampleDependency) ! i) = ''B'')})"
proof -
  have 1: "''B'' \<noteq> []" and 2: "''B'' \<in> (\<lambda>a. node_id (exampleStore ! a)) ` set [0, 1, 2]"
    using example_focus_valid by (rule conjunct1, rule conjunct2 [THEN conjunct1])
  show ?thesis
    using 1 2 local_view_contents [OF 1 2, of exampleHierarchy exampleDependency]
    by (intro conjI) assumption+
qed

definition emptyIdStore :: store where
  "emptyIdStore =
     [\<lparr> node_id = '''', position = \<lparr> pos_x = 0, pos_y = 0 \<rparr>,
        node_data = [(''label'', JStr ''TASK '')], node_type = ''default'' \<rparr>,
      \<lparr> node_id = ''A'', position = \<lparr> pos_x = 0, pos_y = 120 \<rparr>,
        node_data = [(''label'', JStr ''TASK '')], node_type = ''default'' \<rparr>]"

definition emptyIdDependency :: "WbsEdge list" where
  "emptyIdDependency =
     [\<lparr> edge_id = ''d1'', source = '''', target = ''A'', edge_type = ''default'',
        label = ''DOC_DEPENDS_ON'', edge_data = [(''wbsType'', JStr ''DOC_DEPENDS_ON'')] \<rparr>]"

text \<open>
  Claim C2 as stated fails for the empty id: a node may carry the id \<^verbatim>\<open>""\<close>, but the guard
  \<^verbatim>\<open>!focusNodeId\<close> treats the empty string as "no focus", so the selector returns the
  GLOBAL view, whose edge sequence misses the incident dependency edge.
\<close>

theorem local_view_empty_focus_counterexample:
  "'''' \<in> (\<lambda>a. node_id (emptyIdStore ! a)) ` set [0, 1]
   \<and> selectView emptyIdStore LOCAL (Some '''') [0, 1] [] emptyIdDependency
       = (emptyIdStore, [0, 1], [])
   \<and> filter (\<lambda>e. source e = '''' \<or> target e = '''') ([] @ emptyIdDependency) \<noteq> []"
  by (simp add: selectView_def emptyIdStore_def emptyIdDependency_def)

definition neighborAddrs :: "store \<Rightarrow> string \<Rightarrow> addr list \<Rightarrow> WbsEdge list \<Rightarrow> addr list" where
  "neighborAddrs h F base es = filter (\<lambda>a. node_id (h ! a) \<in> otherEndpoints F es) base"

text \<open>
  Claim C4.  For a valid focus (a non-empty id occurring in the base node sequence) with
  \<open>k\<close> neighbours, the first returned node is the focus node placed at \<open>(0, 0)\<close>; the
  \<open>i\<close>-th neighbour, in the order filtered from the base node sequence, is a copy of that
  base node placed at \<open>(220 cos (2\<pi>i/k), 220 sin (2\<pi>i/k))\<close>, at distance 220 from the
  origin; with \<open>k = 0\<close> the view holds the focus node only.
\<close>

theorem local_view_star_layout:
  assumes "F \<noteq> []" and "F \<in> (\<lambda>a. node_id (h ! a)) ` set base"
  shows "case selectView h LOCAL (Some F) base hs ds of (h', nodes, edges) \<Rightarrow>
           length nodes = Suc (length (neighborAddrs h F base (hs @ ds)))
         \<and> node_id (h' ! (nodes ! 0)) = F
         \<and> position (h' ! (nodes ! 0)) = \<lparr> pos_x = 0, pos_y = 0 \<rparr>
         \<and> (\<forall>i < length (neighborAddrs h F base (hs @ ds)).
               h' ! (nodes ! Suc i) =
                 (h ! (neighborAddrs h F base (hs @ ds) ! i))
                   \<lparr> position :=
                       \<lparr> pos_x = 220 * cos (2 * pi * real i
                                     / real (length (neighborAddrs h F base (hs @ ds)))),
                         pos_y = 220 * sin (2 * pi * real i
                                     / real (length (neighborAddrs h F base (hs @ ds)))) \<rparr> \<rparr>
             \<and> sqrt ((pos_x (position (h' ! (nodes ! Suc i))))\<^sup>2
                     + (pos_y (position (h' ! (nodes ! Suc i))))\<^sup>2) = 220)
         \<and> (length (neighborAddrs h F base (hs @ ds)) = 0 \<longrightarrow> length nodes = 1)"
proof -
  from find_exists [OF assms(2)] obtain c
    where c: "find (\<lambda>a. node_id (h ! a) = F) base = Some c" by blast
  let ?nbrs = "neighborAddrs h F base (hs @ ds)"
  let ?k = "length ?nbrs"
  let ?cn = "(h ! c)\<lparr> position := \<lparr> pos_x = 0, pos_y = 0 \<rparr> \<rparr>"
  let ?vs = "?cn # neighborNodes (map ((!) h) ?nbrs)"
  let ?h' = "h @ ?vs"
  let ?nodes = "[length h ..< length h + length ?vs]"
  have sv: "selectView h LOCAL (Some F) base hs ds
              = (?h', ?nodes, filter (\<lambda>e. source e = F \<or> target e = F) (hs @ ds))"
    using selectView_local [OF assms(1) c, of hs ds] by (simp add: neighborAddrs_def)
  have len: "length ?nodes = Suc ?k" by simp
  have first: "?h' ! (?nodes ! 0) = ?cn"
    using nth_alloc [of 0 ?vs h] by simp
  have nbr: "?h' ! (?nodes ! Suc i) = (h ! (?nbrs ! i))\<lparr> position := starPosition i ?k \<rparr>"
    if "i < ?k" for i
  proof -
    have "?h' ! (?nodes ! Suc i) = ?vs ! Suc i"
      using that by (intro nth_alloc) simp
    also have "\<dots> = neighborNodes (map ((!) h) ?nbrs) ! i" by simp
    also have "\<dots> = (h ! (?nbrs ! i))\<lparr> position := starPosition i ?k \<rparr>"
      using that by (simp add: nth_neighborNodes)
    finally show ?thesis .
  qed
  have star: "starPosition i ?k =
                \<lparr> pos_x = 220 * cos (2 * pi * real i / real ?k),
                  pos_y = 220 * sin (2 * pi * real i / real ?k) \<rparr>" for i
    by (simp add: starPosition_def Let_def)
  have rad: "sqrt ((pos_x (position (?h' ! (?nodes ! Suc i))))\<^sup>2
                 + (pos_y (position (?h' ! (?nodes ! Suc i))))\<^sup>2) = 220" if "i < ?k" for i
    unfolding nbr [OF that] using starPosition_radius [of i ?k] by simp
  show ?thesis
    unfolding sv prod.case
  proof (intro conjI allI impI)
    show "length ?nodes = Suc ?k" by (rule len)
    show "node_id (?h' ! (?nodes ! 0)) = F"
      unfolding first using find_node_id [OF c] by simp
    show "position (?h' ! (?nodes ! 0)) = \<lparr> pos_x = 0, pos_y = 0 \<rparr>"
      unfolding first by simp
    show "?k = 0 \<Longrightarrow> length ?nodes = 1" by simp
  next
    fix i assume "i < ?k"
    then show "?h' ! (?nodes ! Suc i) =
                 (h ! (?nbrs ! i))
                   \<lparr> position := \<lparr> pos_x = 220 * cos (2 * pi * real i / real ?k),
                                   pos_y = 220 * sin (2 * pi * real i / real ?k) \<rparr> \<rparr>"
      using nbr [of i] star [of i] by simp
  next
    fix i assume "i < ?k"
    then show "sqrt ((pos_x (position (?h' ! (?nodes ! Suc i))))\<^sup>2
                 + (pos_y (position (?h' ! (?nodes ! Suc i))))\<^sup>2) = 220"
      by (rule rad)
  qed
qed

text \<open>
  Claim C8.  Computing the LOCAL view for a valid focus changes no object of the store it
  was given: every base node keeps its position, the returned nodes are newly allocated
  objects distinct from all base nodes, and they carry the positions computed for the
  star (origin for the focus, the circle for the neighbours).
\<close>

theorem local_view_keeps_base:
  assumes "F \<noteq> []" and "F \<in> (\<lambda>a. node_id (h ! a)) ` set base"
    and "\<forall>a\<in>set base. a < length h"
  shows "case selectView h LOCAL (Some F) base hs ds of (h', nodes, edges) \<Rightarrow>
           (\<forall>a < length h. h' ! a = h ! a)
         \<and> (\<forall>a\<in>set base. position (h' ! a) = position (h ! a))
         \<and> (\<forall>a\<in>set nodes. length h \<le> a \<and> a < length h' \<and> a \<notin> set base)
         \<and> map (\<lambda>a. position (h' ! a)) nodes =
             \<lparr> pos_x = 0, pos_y = 0 \<rparr>
             # map (\<lambda>i. starPosition i (length (neighborAddrs h F base (hs @ ds))))
                 [0 ..< length (neighborAddrs h F base (hs @ ds))]"
proof -
  from find_exists [OF assms(2)] obtain c
    where c: "find (\<lambda>a. node_id (h ! a) = F) base = Some c" by blast
  let ?nbrs = "neighborAddrs h F base (hs @ ds)"
  let ?k = "length ?nbrs"
  let ?cn = "(h ! c)\<lparr> position := \<lparr> pos_x = 0, pos_y = 0 \<rparr> \<rparr>"
  let ?vs = "?cn # neighborNodes (map ((!) h) ?nbrs)"
  let ?h' = "h @ ?vs"
  let ?nodes = "[length h ..< length h + length ?vs]"
  have sv: "selectView h LOCAL (Some F) base hs ds
              = (?h', ?nodes, filter (\<lambda>e. source e = F \<or> target e = F) (hs @ ds))"
    using selectView_local [OF assms(1) c, of hs ds] by (simp add: neighborAddrs_def)
  have old: "?h' ! a = h ! a" if "a < length h" for a
    using that by (simp add: nth_append)
  have "map (\<lambda>a. position (?h' ! a)) ?nodes = map position (map ((!) ?h') ?nodes)"
    by (simp only: map_map comp_def)
  also have "\<dots> = map position ?vs" by (simp only: map_nth_alloc)
  also have "\<dots> = \<lparr> pos_x = 0, pos_y = 0 \<rparr> # map (\<lambda>i. starPosition i ?k) [0 ..< ?k]"
    by (auto intro!: nth_equalityI simp: nth_neighborNodes)
  finally have pos: "map (\<lambda>a. position (?h' ! a)) ?nodes
     = \<lparr> pos_x = 0, pos_y = 0 \<rparr> # map (\<lambda>i. starPosition i ?k) [0 ..< ?k]" .
  show ?thesis
    unfolding sv prod.case
  proof (intro conjI allI impI ballI)
    fix a assume "a < length h"
    then show "?h' ! a = h ! a" by (rule old)
  next
    fix a assume "a \<in> set base"
    with assms(3) have "a < length h" by blast
    then show "position (?h' ! a) = position (h ! a)" by (simp only: old)
  next
    fix a assume "a \<in> set ?nodes"
    then have a: "length h \<le> a \<and> a < length h + length ?vs"
      by (simp only: set_upt atLeastLessThan_iff)
    from a show "length h \<le> a" by simp
    from a show "a < length ?h'" by simp
    from a assms(3) show "a \<notin> set base" by auto
  next
    show "map (\<lambda>a. position (?h' ! a)) ?nodes
            = \<lparr> pos_x = 0, pos_y = 0 \<rparr> # map (\<lambda>i. starPosition i ?k) [0 ..< ?k]"
      by (rule pos)
  qed
qed

theorem local_view_star_layout_witness:
  "''A'' \<noteq> [] \<and> ''A'' \<in> (\<lambda>a. node_id (exampleStore ! a)) ` set [0, 1, 2]
   \<and> (case selectView exampleStore LOCAL (Some ''A'') [0, 1, 2] exampleHierarchy exampleDependency
        of (h', nodes, edges) \<Rightarrow>
           length nodes
             = Suc (length (neighborAddrs exampleStore ''A'' [0, 1, 2]
                              (exampleHierarchy @ exampleDependency)))
         \<and> node_id (h' ! (nodes ! 0)) = ''A''
         \<and> position (h' ! (nodes ! 0)) = \<lparr> pos_x = 0, pos_y = 0 \<rparr>
         \<and> (\<forall>i < length (neighborAddrs exampleStore ''A'' [0, 1, 2]
                           (exampleHierarchy @ exampleDependency)).
               h' ! (nodes ! Suc i) =
                 (exampleStore ! (neighborAddrs exampleStore ''A'' [0, 1, 2]
                                    (exampleHierarchy @ exampleDependency) ! i))
                   \<lparr> position :=
                       \<lparr> pos_x = 220 * cos (2 * pi * real i
                           / real (length (neighborAddrs exampleStore ''A'' [0, 1, 2]
                                             (exampleHierarchy @ exampleDependency)))),
                         pos_y = 220 * sin (2 * pi * real i
                           / real (length (neighborAddrs exampleStore ''A'' [0, 1, 2]
                                             (exampleHierarchy @ exampleDependency)))) \<rparr> \<rparr>
             \<and> sqrt ((pos_x (position (h' ! (nodes ! Suc i))))\<^sup>2
                     + (pos_y (position (h' ! (nodes ! Suc i))))\<^sup>2) = 220)
         \<and> (length (neighborAddrs exampleStore ''A'' [0, 1, 2]
                       (exampleHierarchy @ exampleDependency)) = 0
              \<longrightarrow> length nodes = 1))"
proof -
  have 1: "''A'' \<noteq> []" by simp
  have 2: "''A'' \<in> (\<lambda>a. node_id (exampleStore ! a)) ` set [0, 1, 2]"
    by (simp add: exampleStore_def)
  show ?thesis
    using 1 2 local_view_star_layout [OF 1 2, of exampleHierarchy exampleDependency]
    by (intro conjI) assumption+
qed

theorem local_view_keeps_base_witness:
  "''B'' \<noteq> [] \<and> ''B'' \<in> (\<lambda>a. node_id (exampleStore ! a)) ` set [0, 1, 2]
   \<and> list_all (\<lambda>a. a < length exampleStore) [0, 1, 2]
   \<and> (case selectView exampleStore LOCAL (Some ''B'') [0, 1, 2] exampleHierarchy exampleDependency
        of (h', nodes, edges) \<Rightarrow>
           (\<forall>a < length exampleStore. h' ! a = exampleStore ! a)
         \<and> (\<forall>a\<in>set [0, 1, 2]. position (h' ! a) = position (exampleStore ! a))
         \<and> (\<forall>a\<in>set nodes. length exampleStore \<le> a \<and> a < length h' \<and> a \<notin> set [0, 1, 2])
         \<and> map (\<lambda>a. position (h' ! a)) nodes =
             \<lparr> pos_x = 0, pos_y = 0 \<rparr>
             # map (\<lambda>i. starPosition i
                     (length (neighborAddrs exampleStore ''B'' [0, 1, 2]
                                (exampleHierarchy @ exampleDependency))))
                 [0 ..< length (neighborAddrs exampleStore ''B'' [0, 1, 2]
                                  (exampleHierarchy @ exampleDependency))])"
proof -
  have 1: "''B'' \<noteq> []" by simp
  have 2: "''B'' \<in> (\<lambda>a. node_id (exampleStore ! a)) ` set [0, 1, 2]"
    by (simp add: exampleStore_def)
  have 3: "\<forall>a\<in>set [0, 1, 2]. a < length exampleStore"
    by (simp add: exampleStore_def)
  from 3 have 4: "list_all (\<lambda>a. a < length exampleStore) [0, 1, 2]"
    by (simp only: list_all_iff)
  show ?thesis
    using 1 2 4 local_view_keeps_base [OF 1 2 3, of exampleHierarchy exampleDependency]
    by (intro conjI) assumption+
qed

text \<open>
  Claim C3.  If the mode is GLOBAL, or no focus is set, or the focus id does not occur in
  the base node sequence, the selector returns the store untouched, the full base node
  sequence and the hierarchy edges only; every returned edge was loaded from a raw edge of
  type HIERARCHY, whatever the input; and the result equals that of the GLOBAL mode.
\<close>

theorem global_view_hierarchy_only:
  assumes "mode = GLOBAL \<or> focus = None \<or> focus = Some []
           \<or> (\<exists>F. focus = Some F \<and> F \<notin> (\<lambda>a. node_id (h ! a)) ` set base)"
  shows "selectView h mode focus base
           (acc_hierarchy (loadEdges rawEdges)) (acc_dependency (loadEdges rawEdges))
           = (h, base, acc_hierarchy (loadEdges rawEdges))
         \<and> (\<forall>e \<in> set (acc_hierarchy (loadEdges rawEdges)). label e = ''HIERARCHY'')
         \<and> selectView h mode focus base
             (acc_hierarchy (loadEdges rawEdges)) (acc_dependency (loadEdges rawEdges))
           = selectView h GLOBAL focus base
               (acc_hierarchy (loadEdges rawEdges)) (acc_dependency (loadEdges rawEdges))"
proof -
  have g: "selectView h m f base hs ds = (h, base, hs)"
    if "m = GLOBAL \<or> f = None \<or> f = Some [] \<or> (\<exists>F. f = Some F \<and> F \<notin> (\<lambda>a. node_id (h ! a)) ` set base)"
    for m f hs ds
    using that by (intro selectView_global) auto
  have "\<forall>e \<in> set (acc_hierarchy (loadEdges rawEdges)). label e = ''HIERARCHY''"
    by (rule hierarchy_labels)
  then show ?thesis
    using g [OF assms] g [of GLOBAL focus] by simp
qed

definition exampleRawEdges :: "RawEdge list" where
  "exampleRawEdges =
     [\<lparr> re_id = ''e1'', re_type = ''HIERARCHY'', re_source = ''A'', re_target = ''B'',
        re_data = None \<rparr>,
      \<lparr> re_id = ''e3'', re_type = ''DOC_DEPENDS_ON'', re_source = ''C'', re_target = ''B'',
        re_data = Some [(''approved'', JBool True)] \<rparr>,
      \<lparr> re_id = ''e2'', re_type = ''HIERARCHY'', re_source = ''A'', re_target = ''C'',
        re_data = None \<rparr>]"

theorem global_view_hierarchy_only_witness:
  "(\<exists>F. Some ''Z'' = Some F \<and> F \<notin> (\<lambda>a. node_id (exampleStore ! a)) ` set [0, 1, 2])
   \<and> selectView exampleStore LOCAL (Some ''Z'') [0, 1, 2]
           (acc_hierarchy (loadEdges exampleRawEdges)) (acc_dependency (loadEdges exampleRawEdges))
           = (exampleStore, [0, 1, 2], acc_hierarchy (loadEdges exampleRawEdges))
   \<and> list_all (\<lambda>e. label e = ''HIERARCHY'') (acc_hierarchy (loadEdges exampleRawEdges))
   \<and> acc_dependency (loadEdges exampleRawEdges) \<noteq> []"
proof -
  have 1: "\<exists>F. Some ''Z'' = Some F \<and> F \<notin> (\<lambda>a. node_id (exampleStore ! a)) ` set [0, 1, 2]"
    by (simp add: exampleStore_def)
  then have 2: "LOCAL = GLOBAL \<or> Some ''Z'' = None \<or> Some ''Z'' = Some []
           \<or> (\<exists>F. Some ''Z'' = Some F \<and> F \<notin> (\<lambda>a. node_id (exampleStore ! a)) ` set [0, 1, 2])"
    by blast
  have 3: "acc_dependency (loadEdges exampleRawEdges) \<noteq> []"
    by (simp add: loadEdges_def addRawEdge_def exampleRawEdges_def member_defs)
  show ?thesis
    using 1 3 global_view_hierarchy_only [OF 2, of exampleRawEdges]
    by (simp only: list_all_iff) simp
qed

section \<open>Interaction controller\<close>

text \<open>
  The component state: the three memoised values of the first \<^verbatim>\<open>useMemo\<close> (the
  loaded graph), the three \<^verbatim>\<open>useState\<close> cells, and the two output channels the
  handlers write to (\<^verbatim>\<open>alert\<close> and \<^verbatim>\<open>console.log\<close>).
\<close>

datatype notice = CreateNodeIsDummy

datatype log_entry =
    NodeClicked string
  | EdgeClicked string
  | NodeRightClicked string
  | CreateDummyFor "string option"

record AppState =
  baseNodes :: "WbsNode list"
  hierarchyEdges :: "WbsEdge list"
  dependencyEdges :: "WbsEdge list"
  viewMode :: ViewMode
  focusNodeId :: "string option"
  contextMenu :: ContextMenuState
  alerts :: "notice list"
  console :: "log_entry list"

definition initialState :: "WbsNode list \<Rightarrow> WbsEdge list \<Rightarrow> WbsEdge list \<Rightarrow> AppState" where
  "initialState ns hs ds =
     \<lparr> baseNodes = ns, hierarchyEdges = hs, dependencyEdges = ds,
       viewMode = GLOBAL, focusNodeId = None,
       contextMenu = \<lparr> visible = False, menu_x = 0, menu_y = 0, menu_type = canvas,
                       nodeId = None \<rparr>,
       alerts = [], console = [] \<rparr>"

definition hideContextMenu :: "AppState \<Rightarrow> AppState" where
  "hideContextMenu s = s\<lparr> contextMenu := (contextMenu s)\<lparr> visible := False \<rparr> \<rparr>"

definition onNodeClick :: "string \<Rightarrow> AppState \<Rightarrow> AppState" where
  "onNodeClick n s = (hideContextMenu s)\<lparr> console := console s @ [NodeClicked n] \<rparr>"

definition onEdgeClick :: "string \<Rightarrow> AppState \<Rightarrow> AppState" where
  "onEdgeClick e s = (hideContextMenu s)\<lparr> console := console s @ [EdgeClicked e] \<rparr>"

definition onPaneClick :: "AppState \<Rightarrow> AppState" where
  "onPaneClick s = hideContextMenu s"

definition onPaneContextMenu :: "real \<Rightarrow> real \<Rightarrow> AppState \<Rightarrow> AppState" where
  "onPaneContextMenu clientX clientY s =
     s\<lparr> contextMenu := \<lparr> visible = True, menu_x = clientX, menu_y = clientY,
                          menu_type = canvas, nodeId = None \<rparr> \<rparr>"

definition onNodeContextMenu :: "real \<Rightarrow> real \<Rightarrow> string \<Rightarrow> AppState \<Rightarrow> AppState" where
  "onNodeContextMenu clientX clientY n s =
     s\<lparr> contextMenu := \<lparr> visible = True, menu_x = clientX, menu_y = clientY,
                          menu_type = node, nodeId = Some n \<rparr>,
        console := console s @ [NodeRightClicked n] \<rparr>"

definition clickReturnToWbs :: "AppState \<Rightarrow> AppState" where
  "clickReturnToWbs s = hideContextMenu (s\<lparr> viewMode := GLOBAL, focusNodeId := None \<rparr>)"

definition clickShowConnected :: "AppState \<Rightarrow> AppState" where
  "clickShowConnected s =
     hideContextMenu
       (if truthy (nodeId (contextMenu s))
        then s\<lparr> viewMode := LOCAL, focusNodeId := nodeId (contextMenu s) \<rparr>
        else s)"

definition clickCreateConnected :: "AppState \<Rightarrow> AppState" where
  "clickCreateConnected s =
     hideContextMenu
       (s\<lparr> console := console s @ [CreateDummyFor (nodeId (contextMenu s))],
           alerts := alerts s @ [CreateNodeIsDummy] \<rparr>)"

datatype Event =
    NodeClick string
  | EdgeClick string
  | PaneClick
  | PaneContextMenu real real
  | NodeContextMenu real real string
  | ReturnToWbs
  | ShowConnected
  | CreateConnected

text \<open>
  The menu items exist only while the menu is rendered: the whole menu under
  \<^verbatim>\<open>contextMenu.visible\<close>, the first item under type canvas, the other two under type node.
\<close>

fun enabled :: "Event \<Rightarrow> AppState \<Rightarrow> bool" where
  "enabled ReturnToWbs s = (visible (contextMenu s) \<and> menu_type (contextMenu s) = canvas)"
| "enabled ShowConnected s = (visible (contextMenu s) \<and> menu_type (contextMenu s) = node)"
| "enabled CreateConnected s = (visible (contextMenu s) \<and> menu_type (contextMenu s) = node)"
| "enabled _ s = True"

fun handle :: "Event \<Rightarrow> AppState \<Rightarrow> AppState" where
  "handle (NodeClick n) s = onNodeClick n s"
| "handle (EdgeClick e) s = onEdgeClick e s"
| "handle PaneClick s = onPaneClick s"
| "handle (PaneContextMenu cx cy) s = onPaneContextMenu cx cy s"
| "handle (NodeContextMenu cx cy n) s = onNodeContextMenu cx cy n s"
| "handle ReturnToWbs s = clickReturnToWbs s"
| "handle ShowConnected s = clickShowConnected s"
| "handle CreateConnected s = clickCreateConnected s"

definition step :: "AppState \<Rightarrow> Event \<Rightarrow> AppState" where
  "step s e = (if enabled e s then handle e s else s)"

definition run :: "Event list \<Rightarrow> AppState \<Rightarrow> AppState" where
  "run es s = foldl step s es"

text \<open>
  The component: its state after the first render of an input document, and the nodes and
  edges handed to the renderer in a state (the base nodes are the objects \<open>0, 1, \<dots>\<close> of
  the store).
\<close>

definition loadApp :: "Host \<Rightarrow> RawNode list \<Rightarrow> RawEdge list \<Rightarrow> error + AppState" where
  "loadApp host rawNodes rawEdges =
     (case baseLayout host rawNodes rawEdges of
        Inl e \<Rightarrow> Inl e
      | Inr (ns, hs, ds) \<Rightarrow> Inr (initialState ns hs ds))"

definition currentView :: "AppState \<Rightarrow> store \<times> addr list \<times> WbsEdge list" where
  "currentView s =
     selectView (baseNodes s) (viewMode s) (focusNodeId s) [0 ..< length (baseNodes s)]
       (hierarchyEdges s) (dependencyEdges s)"

definition focus_inv :: "AppState \<Rightarrow> bool" where
  "focus_inv s = (viewMode s = LOCAL \<longrightarrow> truthy (focusNodeId s))"

section \<open>Properties of the interaction controller\<close>

lemmas handler_defs =
  hideContextMenu_def onNodeClick_def onEdgeClick_def onPaneClick_def onPaneContextMenu_def
  onNodeContextMenu_def clickReturnToWbs_def clickShowConnected_def clickCreateConnected_def

lemma focus_inv_handle: "focus_inv s \<Longrightarrow> focus_inv (handle e s)"
  by (cases e) (auto simp: focus_inv_def handler_defs)

lemma focus_inv_step: "focus_inv s \<Longrightarrow> focus_inv (step s e)"
  by (simp add: step_def focus_inv_handle)

lemma focus_inv_run: "focus_inv s \<Longrightarrow> focus_inv (run es s)"
  unfolding run_def by (induction es arbitrary: s) (simp_all add: focus_inv_step)

lemma focus_inv_initial: "focus_inv (initialState ns hs ds)"
  by (simp add: focus_inv_def initialState_def)

lemma first_view:
  assumes "layoutNodes host rawNodes rawEdges = Inr L"
  shows "\<exists>s. loadApp host rawNodes rawEdges = Inr s
             \<and> currentView s = (L, [0 ..< length L], acc_hierarchy (loadEdges rawEdges))"
  using assms
  by (simp add: currentView_def loadApp_def baseLayout_def initialState_def selectView_def)

lemma graph_unchanged:
  "baseNodes (run es s) = baseNodes s \<and> hierarchyEdges (run es s) = hierarchyEdges s
   \<and> dependencyEdges (run es s) = dependencyEdges s"
  unfolding run_def
proof (induction es arbitrary: s)
  case Nil
  show ?case by simp
next
  case (Cons e es)
  have "baseNodes (step s e) = baseNodes s \<and> hierarchyEdges (step s e) = hierarchyEdges s
        \<and> dependencyEdges (step s e) = dependencyEdges s"
    by (cases e) (simp_all add: step_def handler_defs)
  with Cons.IH [of "step s e"] show ?case by simp
qed

text \<open>
  Claim C6.  From every prior state, the canvas menu item "return to WBS" leaves the view
  mode GLOBAL, the focus node id null and the context menu closed.
\<close>

theorem return_to_wbs_resets:
  "viewMode (handle ReturnToWbs s) = GLOBAL
   \<and> focusNodeId (handle ReturnToWbs s) = None
   \<and> visible (contextMenu (handle ReturnToWbs s)) = False"
  by (simp add: handler_defs)

text \<open>
  Claim C7.  The node menu item "create connected node" raises exactly one notice, closes
  the menu, and leaves the loaded graph (base nodes, hierarchy edges, dependency edges), the
  view mode and the focus node id as they were.
\<close>

theorem create_connected_is_placeholder:
  "alerts (handle CreateConnected s) = alerts s @ [CreateNodeIsDummy]
   \<and> visible (contextMenu (handle CreateConnected s)) = False
   \<and> baseNodes (handle CreateConnected s) = baseNodes s
   \<and> hierarchyEdges (handle CreateConnected s) = hierarchyEdges s
   \<and> dependencyEdges (handle CreateConnected s) = dependencyEdges s
   \<and> viewMode (handle CreateConnected s) = viewMode s
   \<and> focusNodeId (handle CreateConnected s) = focusNodeId s"
  by (simp add: handler_defs)

text \<open>
  Claim C9.  In every state reached from the initial state by any sequence of gesture and
  menu events, view mode LOCAL implies that the focus node id is not null.
\<close>

theorem local_mode_has_focus:
  "viewMode (run es (initialState ns hs ds)) = LOCAL
   \<longrightarrow> focusNodeId (run es (initialState ns hs ds)) \<noteq> None"
proof -
  have "focus_inv (run es (initialState ns hs ds))"
    by (rule focus_inv_run [OF focus_inv_initial])
  then show ?thesis
    by (cases "focusNodeId (run es (initialState ns hs ds))") (auto simp: focus_inv_def)
qed

theorem local_mode_has_focus_witness:
  "viewMode (run [NodeContextMenu 10 20 ''B'', ShowConnected] (initialState [] [] [])) = LOCAL
   \<and> focusNodeId (run [NodeContextMenu 10 20 ''B'', ShowConnected] (initialState [] [] []))
       \<noteq> None"
proof -
  have "viewMode (run [NodeContextMenu 10 20 ''B'', ShowConnected] (initialState [] [] []))
          = LOCAL"
    by (simp add: run_def step_def handler_defs initialState_def)
  then show ?thesis
    using local_mode_has_focus [of "[NodeContextMenu 10 20 ''B'', ShowConnected]" "[]" "[]" "[]"]
    by simp
qed

text \<open>
  Claim C10.  Closing the context menu, by a left click on canvas, node or edge or by any
  of the three menu items, sets \<open>visible\<close> to false and keeps the menu's position, target
  kind and target node id.
\<close>

theorem closing_keeps_menu_target:
  "contextMenu (hideContextMenu s) = (contextMenu s)\<lparr> visible := False \<rparr>
   \<and> contextMenu (handle PaneClick s) = (contextMenu s)\<lparr> visible := False \<rparr>
   \<and> contextMenu (handle (NodeClick n) s) = (contextMenu s)\<lparr> visible := False \<rparr>
   \<and> contextMenu (handle (EdgeClick e) s) = (contextMenu s)\<lparr> visible := False \<rparr>
   \<and> contextMenu (handle ReturnToWbs s) = (contextMenu s)\<lparr> visible := False \<rparr>
   \<and> contextMenu (handle ShowConnected s) = (contextMenu s)\<lparr> visible := False \<rparr>
   \<and> contextMenu (handle CreateConnected s) = (contextMenu s)\<lparr> visible := False \<rparr>"
  by (simp add: handler_defs)

end
